theory Spec2Isabelle
  imports Main "HOL-Library.Word"
begin

unbundle bit_operations_syntax

section \<open>Python values: bytes, integers, exceptions\<close>

text \<open>
  A Python \<open>bytes\<close> value is a list of 8-bit words, a Python \<open>int\<close> is an \<open>int\<close>,
  a polynomial is a list of \<open>int\<close>. An exception is a value: a function of the source
  that can raise returns \<open>exn + 'a\<close>, with \<open>Inl\<close> the exception raised.
\<close>

type_synonym byte = "8 word"
type_synonym bytes = "byte list"
type_synonym poly = "int list"

datatype exn = IndexError | OverflowError | TypeError

text \<open>Sequencing of two computations that can raise.\<close>

definition bind :: "exn + 'a \<Rightarrow> ('a \<Rightarrow> exn + 'b) \<Rightarrow> exn + 'b" where
  "bind m f = (case m of Inl e \<Rightarrow> Inl e | Inr x \<Rightarrow> f x)"

text \<open>A loop body run over a list of indices, stopping at the first exception.\<close>

fun mapM :: "('a \<Rightarrow> exn + 'b) \<Rightarrow> 'a list \<Rightarrow> exn + 'b list" where
  "mapM f [] = Inr []"
| "mapM f (x # xs) = bind (f x) (\<lambda>y. bind (mapM f xs) (\<lambda>ys. Inr (y # ys)))"

fun foldM :: "('a \<Rightarrow> 'b \<Rightarrow> exn + 'b) \<Rightarrow> 'a list \<Rightarrow> 'b \<Rightarrow> exn + 'b" where
  "foldM f [] s = Inr s"
| "foldM f (x # xs) s = bind (f x s) (foldM f xs)"

text \<open>\<open>bs[i:j]\<close>: a slice never raises; it is cut at the end of the data.\<close>

definition slice :: "'a list \<Rightarrow> nat \<Rightarrow> nat \<Rightarrow> 'a list" where
  "slice bs i j = take (j - i) (drop i bs)"

text \<open>\<open>int.from_bytes(bs, 'little')\<close> and its \<open>signed=True\<close> variant.\<close>

fun from_bytes :: "bytes \<Rightarrow> int" where
  "from_bytes [] = 0"
| "from_bytes (b # bs) = uint b + 256 * from_bytes bs"

definition from_bytes_signed :: "bytes \<Rightarrow> int" where
  "from_bytes_signed bs =
     (let v = from_bytes bs; n = length bs
      in if n > 0 \<and> v \<ge> 2 ^ (8 * n - 1) then v - 2 ^ (8 * n) else v)"

text \<open>\<open>v.to_bytes(n, 'little')\<close>: OverflowError unless \<open>0 \<le> v < 256 ^ n\<close>.\<close>

fun le_bytes :: "nat \<Rightarrow> int \<Rightarrow> bytes" where
  "le_bytes 0 v = []"
| "le_bytes (Suc n) v = word_of_int (v mod 256) # le_bytes n (v div 256)"

definition to_bytes :: "nat \<Rightarrow> int \<Rightarrow> exn + bytes" where
  "to_bytes n v = (if 0 \<le> v \<and> v < 256 ^ n then Inr (le_bytes n v) else Inl OverflowError)"

section \<open>The hash library\<close>

text \<open>
  \<open>hashlib\<close> is not part of the repository. An extendable-output function is a parameter
  of the model: \<open>h data i\<close> is byte \<open>i\<close> of the output stream for the input \<open>data\<close>, and
  \<open>digest h data n\<close> is \<open>shake(data).digest(n)\<close>, the first \<open>n\<close> bytes of the stream.
  SHA3-256 is a parameter of the same type, read for 32 bytes.
\<close>

type_synonym xof = "bytes \<Rightarrow> nat \<Rightarrow> byte"

definition digest :: "xof \<Rightarrow> bytes \<Rightarrow> nat \<Rightarrow> bytes" where
  "digest h data n = map (h data) [0..<n]"

definition sha3_256 :: "xof \<Rightarrow> bytes \<Rightarrow> bytes" where
  "sha3_256 h data = digest h data 32"

section \<open>Ring arithmetic\<close>

text \<open>
  \<open>_poly_add\<close>, \<open>_poly_sub\<close> and \<open>_poly_mul\<close> are the same code in \<open>kyber.py\<close>
  (with \<open>Q = 3329\<close>), \<open>signatures.py\<close> and \<open>quantum_signatures.py\<close> (with
  \<open>Q = 8380417\<close>); the modulus \<open>q\<close> is the class constant \<open>cls.Q\<close>.
  Reading \<open>a[i]\<close> for \<open>i\<close> in \<open>range(N)\<close> raises IndexError on a shorter list.
\<close>

definition N :: nat where
  "N = 256"

definition Kyber_Q :: int where
  "Kyber_Q = 3329"

definition Sig_Q :: int where
  "Sig_Q = 8380417"

definition poly_add :: "int \<Rightarrow> poly \<Rightarrow> poly \<Rightarrow> exn + poly" where
  "poly_add q a b =
     (if length a < N \<or> length b < N then Inl IndexError
      else Inr (map (\<lambda>i. (a ! i + b ! i) mod q) [0..<N]))"

definition poly_sub :: "int \<Rightarrow> poly \<Rightarrow> poly \<Rightarrow> exn + poly" where
  "poly_sub q a b =
     (if length a < N \<or> length b < N then Inl IndexError
      else Inr (map (\<lambda>i. (a ! i - b ! i) mod q) [0..<N]))"

text \<open>The body of the inner loop of \<open>_poly_mul\<close>, on the result list.\<close>

definition mul_step :: "int \<Rightarrow> poly \<Rightarrow> poly \<Rightarrow> nat \<Rightarrow> nat \<Rightarrow> poly \<Rightarrow> poly" where
  "mul_step q a b i j r =
     (if i + j < N then r[i + j := (r ! (i + j) + a ! i * b ! j) mod q]
      else r[i + j - N := (r ! (i + j - N) - a ! i * b ! j) mod q])"

definition mul_loop :: "int \<Rightarrow> poly \<Rightarrow> poly \<Rightarrow> poly" where
  "mul_loop q a b =
     fold (\<lambda>i r. fold (\<lambda>j r. mul_step q a b i j r) [0..<N] r) [0..<N] (replicate N 0)"

definition poly_mul :: "int \<Rightarrow> poly \<Rightarrow> poly \<Rightarrow> exn + poly" where
  "poly_mul q a b =
     (if length a < N \<or> length b < N then Inl IndexError else Inr (mul_loop q a b))"

text \<open>
  The contract of the specification, in its words: the coefficient at index
  \<open>(i + j) mod N\<close> accumulates \<open>a[i] * b[j]\<close>, subtracted whenever \<open>i + j \<ge> N\<close>.
\<close>

definition negacyclic_term :: "poly \<Rightarrow> poly \<Rightarrow> nat \<Rightarrow> nat \<Rightarrow> nat \<Rightarrow> int" where
  "negacyclic_term a b k i j =
     (if (i + j) mod N = k then (if i + j \<ge> N then - (a ! i * b ! j) else a ! i * b ! j)
      else 0)"

definition negacyclic_coeff :: "int \<Rightarrow> poly \<Rightarrow> poly \<Rightarrow> nat \<Rightarrow> int" where
  "negacyclic_coeff q a b k = (\<Sum>i<N. \<Sum>j<N. negacyclic_term a b k i j) mod q"

definition negacyclic_convolution :: "int \<Rightarrow> poly \<Rightarrow> poly \<Rightarrow> poly" where
  "negacyclic_convolution q a b = map (negacyclic_coeff q a b) [0..<N]"

section \<open>Facts about the ring arithmetic\<close>

lemma bind_Inr [simp]: "bind (Inr x) f = f x"
  by (simp add: bind_def)

lemma bind_Inl [simp]: "bind (Inl e) f = Inl e"
  by (simp add: bind_def)

lemma length_mul_step [simp]: "length (mul_step q a b i j r) = length r"
  by (simp add: mul_step_def)

lemma nth_mul_step:
  assumes "length r = N" "i < N" "j < N" "k < N"
  shows "mul_step q a b i j r ! k =
           (if (i + j) mod N = k then (r ! k + negacyclic_term a b k i j) mod q else r ! k)"
proof (cases "i + j < N")
  case True
  then show ?thesis
    using assms by (auto simp: mul_step_def negacyclic_term_def nth_list_update)
next
  case False
  then have m: "(i + j) mod N = i + j - N"
    using assms by (simp add: mod_if)
  show ?thesis
    using False assms
    by (auto simp: m mul_step_def negacyclic_term_def nth_list_update)
qed

lemma length_fold_mul_step [simp]:
  "length (fold (mul_step q a b i) js r) = length r"
  by (induction js arbitrary: r) simp_all

lemma mul_step_not_hit:
  "(i + j) mod N \<noteq> k \<Longrightarrow> negacyclic_term a b k i j = 0"
  by (simp add: negacyclic_term_def)

lemma inner_loop_nth:
  assumes "length r = N" "i < N" "k < N" "r ! k mod q = r ! k"
  shows "m \<le> N \<Longrightarrow>
         fold (mul_step q a b i) [0..<m] r ! k = (r ! k + (\<Sum>j<m. negacyclic_term a b k i j)) mod q"
proof (induction m)
  case 0
  then show ?case using assms by simp
next
  case (Suc m)
  let ?r = "fold (mul_step q a b i) [0..<m] r"
  have ih: "?r ! k = (r ! k + (\<Sum>j<m. negacyclic_term a b k i j)) mod q"
    using Suc by simp
  have len: "length ?r = N" using assms by simp
  have "fold (mul_step q a b i) [0..<Suc m] r ! k = mul_step q a b i m ?r ! k"
    by simp
  also have "\<dots> = (r ! k + (\<Sum>j<Suc m. negacyclic_term a b k i j)) mod q"
  proof (cases "(i + m) mod N = k")
    case True
    then show ?thesis
      using nth_mul_step [OF len assms(2) _ assms(3), of m q a b] Suc.prems ih
      by (simp add: mod_add_left_eq add.assoc)
  next
    case False
    then show ?thesis
      using nth_mul_step [OF len assms(2) _ assms(3), of m q a b] Suc.prems ih
      by (simp add: mul_step_not_hit)
  qed
  finally show ?case .
qed

lemma length_mul_rows [simp]:
  "length (fold (\<lambda>i r. fold (\<lambda>j r. mul_step q a b i j r) [0..<N] r) is r) = length r"
  by (induction "is" arbitrary: r) simp_all

lemma outer_loop_nth:
  assumes "length r = N" "k < N" "r ! k mod q = r ! k"
  shows "n \<le> N \<Longrightarrow>
         fold (\<lambda>i r. fold (\<lambda>j r. mul_step q a b i j r) [0..<N] r) [0..<n] r ! k =
           (r ! k + (\<Sum>i<n. \<Sum>j<N. negacyclic_term a b k i j)) mod q"
proof (induction n)
  case 0
  then show ?case using assms by simp
next
  case (Suc n)
  let ?r = "fold (\<lambda>i r. fold (\<lambda>j r. mul_step q a b i j r) [0..<N] r) [0..<n] r"
  have ih: "?r ! k = (r ! k + (\<Sum>i<n. \<Sum>j<N. negacyclic_term a b k i j)) mod q"
    using Suc by simp
  have len: "length ?r = N" using assms by simp
  have red: "?r ! k mod q = ?r ! k" by (simp add: ih)
  have "fold (\<lambda>i r. fold (\<lambda>j r. mul_step q a b i j r) [0..<N] r) [0..<Suc n] r ! k
          = fold (mul_step q a b n) [0..<N] ?r ! k"
    by simp
  also have "\<dots> = (?r ! k + (\<Sum>j<N. negacyclic_term a b k n j)) mod q"
    using inner_loop_nth [OF len _ assms(2) red, of n N a b] Suc.prems by simp
  also have "\<dots> = (r ! k + (\<Sum>i<Suc n. \<Sum>j<N. negacyclic_term a b k i j)) mod q"
    by (simp add: ih mod_add_left_eq add.assoc)
  finally show ?case .
qed

lemma length_mul_loop [simp]: "length (mul_loop q a b) = N"
  by (simp add: mul_loop_def)

lemma mul_loop_nth:
  "k < N \<Longrightarrow> mul_loop q a b ! k = negacyclic_coeff q a b k"
  unfolding mul_loop_def negacyclic_coeff_def
  using outer_loop_nth [of "replicate N 0" k q N a b] by simp

lemma mul_loop_convolution: "mul_loop q a b = negacyclic_convolution q a b"
  by (rule nth_equalityI) (simp_all add: negacyclic_convolution_def mul_loop_nth)

text \<open>A polynomial in canonical form: \<open>N\<close> coefficients, each in \<open>[0, q)\<close>.\<close>

definition canonical :: "int \<Rightarrow> poly \<Rightarrow> bool" where
  "canonical q p = (length p = N \<and> (\<forall>c \<in> set p. 0 \<le> c \<and> c < q))"

lemma canonical_map_mod:
  "0 < q \<Longrightarrow> canonical q (map (\<lambda>i. f i mod q) [0..<N])"
  by (auto simp: canonical_def)

lemma canonical_mul_loop: "0 < q \<Longrightarrow> canonical q (mul_loop q a b)"
  unfolding canonical_def
  by (auto simp: in_set_conv_nth mul_loop_nth negacyclic_coeff_def)

lemma unit_term:
  "i < N \<Longrightarrow> j < N \<Longrightarrow>
   negacyclic_term ((replicate N 0)[1 := 1]) ((replicate N 0)[255 := 1]) 0 i j =
     (if i = 1 \<and> j = 255 then - 1 else 0)"
  by (auto simp: negacyclic_term_def nth_list_update N_def)

lemma unit_coeff:
  "negacyclic_coeff Kyber_Q ((replicate N 0)[1 := 1]) ((replicate N 0)[255 := 1]) 0 = 3328"
proof -
  have "(\<Sum>i<N. \<Sum>j<N. negacyclic_term ((replicate N 0)[1 := 1]) ((replicate N 0)[255 := 1]) 0 i j)
        = (\<Sum>i<N. \<Sum>j<N. if i = 1 \<and> j = 255 then - 1 else 0)"
    by (intro sum.cong refl) (simp only: lessThan_iff unit_term)
  also have "\<dots> = (\<Sum>i<N. if i = 1 then (\<Sum>j<N. if j = 255 then - 1 else 0) else 0)"
    by (intro sum.cong refl) simp
  also have "\<dots> = - 1"
    by (simp add: N_def)
  finally show ?thesis
    by (simp add: negacyclic_coeff_def Kyber_Q_def)
qed

text \<open>
  Claim C8. For polynomials \<open>a\<close> and \<open>b\<close> of \<open>N = 256\<close> coefficients, \<open>_poly_mul\<close>
  returns the schoolbook negacyclic convolution modulo \<open>X^N + 1\<close>: coefficient
  \<open>(i + j) mod N\<close> accumulates \<open>a[i] * b[j]\<close>, subtracted when \<open>i + j \<ge> N\<close>, reduced
  modulo \<open>q\<close>. This holds for either modulus, the KEM's and the signature engine's.
\<close>

theorem poly_mul_negacyclic:
  "length a = N \<Longrightarrow> length b = N \<Longrightarrow> poly_mul q a b = Inr (negacyclic_convolution q a b)"
  by (simp add: poly_mul_def mul_loop_convolution)

text \<open>Witness for C8: \<open>X * X^255 = X^256 = -1\<close>, so coefficient 0 is \<open>Q - 1 = 3328\<close>.\<close>

theorem poly_mul_negacyclic_witness:
  "poly_mul Kyber_Q ((replicate N 0)[1 := 1]) ((replicate N 0)[255 := 1]) =
     Inr (negacyclic_convolution Kyber_Q ((replicate N 0)[1 := 1]) ((replicate N 0)[255 := 1])) \<and>
   negacyclic_convolution Kyber_Q ((replicate N 0)[1 := 1]) ((replicate N 0)[255 := 1]) ! 0 = 3328"
  using poly_mul_negacyclic [of "(replicate N 0)[1 := 1]" "(replicate N 0)[255 := 1]" Kyber_Q]
    unit_coeff
  by (simp add: negacyclic_convolution_def N_def)

text \<open>
  Claim C9. Every polynomial returned by \<open>_poly_add\<close>, \<open>_poly_sub\<close> and \<open>_poly_mul\<close> has
  \<open>N\<close> coefficients, all in \<open>[0, q)\<close>, whatever the integer coefficients of the inputs.
\<close>

theorem arithmetic_results_canonical:
  assumes "length a = N" "length b = N" "0 < q"
  shows "\<exists>r1 r2 r3. poly_add q a b = Inr r1 \<and> canonical q r1 \<and>
                    poly_sub q a b = Inr r2 \<and> canonical q r2 \<and>
                    poly_mul q a b = Inr r3 \<and> canonical q r3"
  using assms
  by (simp add: poly_add_def poly_sub_def poly_mul_def canonical_map_mod canonical_mul_loop)

theorem arithmetic_results_canonical_witness:
  "\<exists>r1 r2 r3.
     poly_add Kyber_Q (replicate N 5000) (replicate N (- 7)) = Inr r1 \<and> canonical Kyber_Q r1 \<and>
     poly_sub Kyber_Q (replicate N 5000) (replicate N (- 7)) = Inr r2 \<and> canonical Kyber_Q r2 \<and>
     poly_mul Kyber_Q (replicate N 5000) (replicate N (- 7)) = Inr r3 \<and> canonical Kyber_Q r3"
  using arithmetic_results_canonical [of "replicate N 5000" "replicate N (- 7)" Kyber_Q]
  by (simp add: Kyber_Q_def)

section \<open>Wire format: reading and writing coefficients\<close>

text \<open>
  The unpack routines read \<open>n\<close> coefficients of \<open>w\<close> bytes each, advancing \<open>offset\<close> by
  \<open>w\<close> after each one; \<open>conv\<close> is \<open>int.from_bytes\<close>, unsigned or signed. A slice that
  starts past the end of the data is empty, and \<open>int.from_bytes\<close> of it is 0: no
  length is checked anywhere.
\<close>

fun unpack_coeffs :: "(bytes \<Rightarrow> int) \<Rightarrow> nat \<Rightarrow> nat \<Rightarrow> bytes \<Rightarrow> nat \<Rightarrow> int list \<times> nat" where
  "unpack_coeffs conv w 0 bs offset = ([], offset)"
| "unpack_coeffs conv w (Suc n) bs offset =
     (let coeff = conv (slice bs offset (offset + w));
          (rest, offset') = unpack_coeffs conv w n bs (offset + w)
      in (coeff # rest, offset'))"

fun unpack_polys :: "(bytes \<Rightarrow> int) \<Rightarrow> nat \<Rightarrow> nat \<Rightarrow> bytes \<Rightarrow> nat \<Rightarrow> poly list \<times> nat" where
  "unpack_polys conv w 0 bs offset = ([], offset)"
| "unpack_polys conv w (Suc k) bs offset =
     (let (poly, offset1) = unpack_coeffs conv w N bs offset;
          (rest, offset2) = unpack_polys conv w k bs offset1
      in (poly # rest, offset2))"

text \<open>\<open>data += coeff.to_bytes(w, 'little')\<close> for each coefficient, in order.\<close>

definition pack_coeffs :: "nat \<Rightarrow> int list \<Rightarrow> exn + bytes" where
  "pack_coeffs w cs = bind (mapM (to_bytes w) cs) (\<lambda>bss. Inr (concat bss))"

definition pack_polys :: "nat \<Rightarrow> poly list \<Rightarrow> exn + bytes" where
  "pack_polys w ps = bind (mapM (pack_coeffs w) ps) (\<lambda>bss. Inr (concat bss))"

text \<open>\<open>xs[i]\<close>, which raises IndexError out of range.\<close>

definition index :: "'a list \<Rightarrow> nat \<Rightarrow> exn + 'a" where
  "index xs i = (if i < length xs then Inr (xs ! i) else Inl IndexError)"

section \<open>The key encapsulation engine (kyber.py)\<close>

definition Kyber_K :: nat where
  "Kyber_K = 4"

definition ETA1 :: nat where
  "ETA1 = 2"

definition ETA2 :: nat where
  "ETA2 = 2"

text \<open>
  \<open>_sample_uniform_poly\<close> of \<open>kyber.py\<close> and of \<open>quantum_signatures.py\<close> (the same code,
  each with its class's \<open>Q\<close> and hash). The loop runs over the chunk starts
  \<open>0, 3, ..., 3 * N - 3\<close> of the \<open>3 * N\<close>-byte stream; its \<open>break\<close> when \<open>j \<ge> N\<close> is an
  iteration that changes nothing, as are all later ones.
\<close>

definition uniform_step :: "int \<Rightarrow> bytes \<Rightarrow> nat \<Rightarrow> poly \<times> nat \<Rightarrow> poly \<times> nat" where
  "uniform_step q stream i = (\<lambda>(poly, j).
     if j \<ge> N then (poly, j)
     else
       let d1 = uint (stream ! i) + 256 * (uint (stream ! (i + 1)) mod 16);
           d2 = uint (stream ! (i + 1)) div 16 + 16 * uint (stream ! (i + 2));
           (poly, j) = (if d1 < q then (poly[j := d1], j + 1) else (poly, j))
       in if d2 < q \<and> j < N then (poly[j := d2], j + 1) else (poly, j))"

definition sample_uniform_poly :: "int \<Rightarrow> xof \<Rightarrow> bytes \<Rightarrow> poly" where
  "sample_uniform_poly q shake seed =
     (let stream = digest shake seed (3 * N)
      in fst (fold (uniform_step q stream) (map (\<lambda>c. 3 * c) [0..<N]) (replicate N 0, 0)))"

text \<open>\<open>_gen_matrix\<close>: entry \<open>A[i][j]\<close> is sampled from \<open>rho + bytes([j, i])\<close>.\<close>

definition gen_matrix :: "xof \<Rightarrow> bytes \<Rightarrow> poly list list" where
  "gen_matrix shake rho =
     map (\<lambda>i. map (\<lambda>j. sample_uniform_poly Kyber_Q shake (rho @ [of_nat j, of_nat i]))
                [0..<Kyber_K]) [0..<Kyber_K]"

text \<open>\<open>_cbd\<close>: bits of the stream are read only where \<open>byte_pos < len(stream)\<close>.\<close>

definition stream_bit :: "bytes \<Rightarrow> nat \<Rightarrow> int" where
  "stream_bit stream bit_pos =
     (if bit_pos div 8 < length stream
      then drop_bit (bit_pos mod 8) (uint (stream ! (bit_pos div 8))) AND 1 else 0)"

definition cbd :: "int \<Rightarrow> bytes \<Rightarrow> nat \<Rightarrow> poly" where
  "cbd q stream eta =
     fold (\<lambda>i poly.
        let (a, b) = fold (\<lambda>j (a, b).
               (a + stream_bit stream (2 * eta * i + j),
                b + stream_bit stream (2 * eta * i + eta + j))) [0..<eta] (0, 0)
        in poly[i := (a - b) mod q]) [0..<N] (replicate N 0)"

definition sample_poly_cbd :: "xof \<Rightarrow> bytes \<Rightarrow> nat \<Rightarrow> nat \<Rightarrow> poly list" where
  "sample_poly_cbd shake seed eta k =
     map (\<lambda>i. cbd Kyber_Q (digest shake (seed @ [of_nat i]) (64 * eta)) eta) [0..<k]"

text \<open>Vector and matrix operations, over the polynomial operations.\<close>

definition vector_add :: "int \<Rightarrow> poly list \<Rightarrow> poly list \<Rightarrow> exn + poly list" where
  "vector_add q a b = mapM (\<lambda>i. bind (index b i) (\<lambda>bi. poly_add q (a ! i) bi)) [0..<length a]"

definition vector_sub :: "int \<Rightarrow> poly list \<Rightarrow> poly list \<Rightarrow> exn + poly list" where
  "vector_sub q a b = mapM (\<lambda>i. bind (index b i) (\<lambda>bi. poly_sub q (a ! i) bi)) [0..<length a]"

definition vector_dot_product :: "int \<Rightarrow> poly list \<Rightarrow> poly list \<Rightarrow> exn + poly" where
  "vector_dot_product q a b =
     foldM (\<lambda>i result. bind (index b i) (\<lambda>bi. bind (poly_mul q (a ! i) bi)
              (\<lambda>poly_prod. poly_add q result poly_prod)))
       [0..<length a] (replicate N 0)"

definition matrix_vector_mul :: "int \<Rightarrow> poly list list \<Rightarrow> poly list \<Rightarrow> exn + poly list" where
  "matrix_vector_mul q A v =
     mapM (\<lambda>i. foldM (\<lambda>j poly_sum. bind (index (A ! i) j) (\<lambda>Aij. bind (poly_mul q Aij (v ! j))
                   (\<lambda>poly_prod. poly_add q poly_sum poly_prod)))
             [0..<length v] (replicate N 0)) [0..<length A]"

definition matrix_transpose_vector_mul ::
  "int \<Rightarrow> poly list list \<Rightarrow> poly list \<Rightarrow> exn + poly list" where
  "matrix_transpose_vector_mul q A v =
     bind (index A 0) (\<lambda>A0.
       mapM (\<lambda>j. foldM (\<lambda>i poly_sum. bind (index (A ! i) j) (\<lambda>Aij. bind (index v i)
                     (\<lambda>vi. bind (poly_mul q Aij vi) (\<lambda>poly_prod. poly_add q poly_sum poly_prod))))
               [0..<length A] (replicate N 0)) [0..<length A0])"

text \<open>
  \<open>_decode_message\<close> turns the 32 message bytes into a polynomial, \<open>_encode_message\<close>
  a polynomial into 32 bytes (the specification calls the first "encode", the second
  "decode").
\<close>

definition decode_message :: "bytes \<Rightarrow> exn + poly" where
  "decode_message m =
     (if length m < 32 then Inl IndexError
      else Inr (fold (\<lambda>i poly. fold (\<lambda>j poly.
                  let bit = drop_bit j (uint (m ! i)) AND 1
                  in if i * 8 + j < N then poly[i * 8 + j := bit * (Kyber_Q div 2)] else poly)
                [0..<8] poly) [0..<32] (replicate N 0)))"

definition encode_step :: "poly \<Rightarrow> nat \<Rightarrow> bytes \<Rightarrow> bytes" where
  "encode_step poly i m =
     (let bit = (if poly ! i > Kyber_Q div 2 then 1 else 0);
          byte_pos = i div 8;
          bit_pos = i mod 8
      in if byte_pos < 32 then m[byte_pos := m ! byte_pos OR push_bit bit_pos bit] else m)"

definition encode_message :: "poly \<Rightarrow> exn + bytes" where
  "encode_message poly =
     (if length poly < N then Inl IndexError
      else Inr (fold (encode_step poly) [0..<N] (replicate 32 0)))"

text \<open>Keys and ciphertexts on the wire: 2 bytes per coefficient.\<close>

definition unpack_public_key :: "bytes \<Rightarrow> poly list \<times> bytes" where
  "unpack_public_key pk = (fst (unpack_polys from_bytes 2 Kyber_K pk 32), take 32 pk)"

definition unpack_private_key :: "bytes \<Rightarrow> poly list" where
  "unpack_private_key sk = fst (unpack_polys from_bytes 2 Kyber_K sk 0)"

definition pack_ciphertext :: "poly list \<Rightarrow> poly \<Rightarrow> exn + bytes" where
  "pack_ciphertext u v =
     bind (pack_polys 2 u) (\<lambda>data. bind (pack_coeffs 2 v) (\<lambda>data'. Inr (data @ data')))"

definition unpack_ciphertext :: "bytes \<Rightarrow> poly list \<times> poly" where
  "unpack_ciphertext ct =
     (let (u, offset) = unpack_polys from_bytes 2 Kyber_K ct 0;
          (v, offset') = unpack_coeffs from_bytes 2 N ct offset
      in (u, v))"

text \<open>
  \<open>encaps\<close>, with the message \<open>m\<close> that \<open>os.urandom(32)\<close> returned as an argument.
  \<open>shake\<close> is SHAKE-128 and \<open>sha3\<close> is SHA3-256, which is also the key derivation function.
\<close>

definition encaps :: "xof \<Rightarrow> xof \<Rightarrow> bytes \<Rightarrow> bytes \<Rightarrow> exn + bytes \<times> bytes" where
  "encaps shake sha3 pk m =
     (let (t, rho) = unpack_public_key pk;
          r = digest shake m 32;
          A = gen_matrix shake rho;
          r_vec = sample_poly_cbd shake r ETA1 Kyber_K;
          e1 = sample_poly_cbd shake (r @ [1]) ETA2 Kyber_K;
          e2 = sample_poly_cbd shake (r @ [2]) ETA2 1 ! 0
      in bind (matrix_transpose_vector_mul Kyber_Q A r_vec) (\<lambda>u.
         bind (vector_add Kyber_Q u e1) (\<lambda>u.
         bind (vector_dot_product Kyber_Q t r_vec) (\<lambda>v.
         bind (poly_add Kyber_Q v e2) (\<lambda>v.
         bind (decode_message m) (\<lambda>dm.
         bind (poly_add Kyber_Q v dm) (\<lambda>v.
         bind (pack_ciphertext u v) (\<lambda>ct.
         Inr (ct, sha3_256 sha3 (m @ sha3_256 sha3 ct))))))))))"

text \<open>\<open>decaps\<close>; \<open>decrypt\<close> is its first part, which recovers the message.\<close>

definition decrypt :: "bytes \<Rightarrow> bytes \<Rightarrow> exn + bytes" where
  "decrypt ct sk =
     (let s = unpack_private_key sk;
          (u, v) = unpack_ciphertext ct
      in bind (vector_dot_product Kyber_Q s u) (\<lambda>m_prime.
         bind (poly_sub Kyber_Q v m_prime) (\<lambda>m_prime.
         encode_message m_prime)))"

definition decaps :: "xof \<Rightarrow> bytes \<Rightarrow> bytes \<Rightarrow> exn + bytes" where
  "decaps sha3 ct sk =
     bind (decrypt ct sk) (\<lambda>m. Inr (sha3_256 sha3 (m @ sha3_256 sha3 ct)))"

section \<open>Facts about loops, the wire format and the key encapsulation engine\<close>

lemma fold_invariant:
  "P s \<Longrightarrow> (\<And>x s. x \<in> set xs \<Longrightarrow> P s \<Longrightarrow> P (f x s)) \<Longrightarrow> P (fold f xs s)"
  by (induction xs arbitrary: s) simp_all

lemma foldM_invariant:
  "P s \<Longrightarrow> (\<And>x s. x \<in> set xs \<Longrightarrow> P s \<Longrightarrow> \<exists>s'. f x s = Inr s' \<and> P s') \<Longrightarrow>
   \<exists>s'. foldM f xs s = Inr s' \<and> P s'"
proof (induction xs arbitrary: s)
  case Nil
  then show ?case by simp
next
  case (Cons x xs)
  from Cons.prems obtain s1 where s1: "f x s = Inr s1" "P s1"
    by (meson list.set_intros(1))
  from Cons.IH [OF s1(2)] Cons.prems(2) obtain s' where "foldM f xs s1 = Inr s'" "P s'"
    by (meson list.set_intros(2))
  with s1 show ?case by simp
qed

lemma mapM_invariant:
  "(\<And>x. x \<in> set xs \<Longrightarrow> \<exists>y. f x = Inr y \<and> P y) \<Longrightarrow>
   \<exists>ys. mapM f xs = Inr ys \<and> length ys = length xs \<and> (\<forall>y \<in> set ys. P y)"
proof (induction xs)
  case Nil
  then show ?case by simp
next
  case (Cons x xs)
  from Cons.prems obtain y where y: "f x = Inr y" "P y"
    by (meson list.set_intros(1))
  from Cons obtain ys where "mapM f xs = Inr ys" "length ys = length xs" "\<forall>y \<in> set ys. P y"
    by (meson list.set_intros(2))
  with y show ?case by simp
qed

lemma mapM_Inr_map:
  "(\<And>x. x \<in> set xs \<Longrightarrow> f x = Inr (g x)) \<Longrightarrow> mapM f xs = Inr (map g xs)"
  by (induction xs) simp_all

lemma index_Inr [simp]: "i < length xs \<Longrightarrow> index xs i = Inr (xs ! i)"
  by (simp add: index_def)

subsection \<open>unpack\<close>

lemma unpack_coeffs_shape:
  "length (fst (unpack_coeffs conv w n bs off)) = n \<and> snd (unpack_coeffs conv w n bs off) = off + w * n"
  by (induction n arbitrary: off) (simp_all add: case_prod_beta Let_def)

lemma unpack_polys_shape:
  "length (fst (unpack_polys conv w k bs off)) = k \<and>
   (\<forall>p \<in> set (fst (unpack_polys conv w k bs off)). length p = N) \<and>
   snd (unpack_polys conv w k bs off) = off + w * N * k"
  by (induction k arbitrary: off)
     (simp_all add: case_prod_beta Let_def unpack_coeffs_shape algebra_simps)

lemma slice_past_end [simp]: "length bs \<le> off \<Longrightarrow> slice bs off j = []"
  by (simp add: slice_def)

lemma unpack_coeffs_missing:
  "j < n \<Longrightarrow> length bs \<le> off + w * j \<Longrightarrow> conv [] = 0 \<Longrightarrow>
   fst (unpack_coeffs conv w n bs off) ! j = 0"
proof (induction n arbitrary: off j)
  case 0
  then show ?case by simp
next
  case (Suc n)
  show ?case
  proof (cases j)
    case 0
    with Suc.prems show ?thesis by (simp add: case_prod_beta Let_def)
  next
    case (Suc j')
    with Suc.prems Suc.IH [of j' "off + w"] show ?thesis
      by (simp add: case_prod_beta Let_def algebra_simps)
  qed
qed

lemma unpack_polys_missing:
  "i < k \<Longrightarrow> j < N \<Longrightarrow> length bs \<le> off + w * (N * i + j) \<Longrightarrow> conv [] = 0 \<Longrightarrow>
   fst (unpack_polys conv w k bs off) ! i ! j = 0"
proof (induction k arbitrary: off i)
  case 0
  then show ?case by simp
next
  case (Suc k)
  show ?case
  proof (cases i)
    case 0
    with Suc.prems show ?thesis
      by (simp add: case_prod_beta Let_def unpack_coeffs_missing)
  next
    case (Suc i')
    with Suc.prems Suc.IH [of i' "off + w * N"] show ?thesis
      by (simp add: case_prod_beta Let_def unpack_coeffs_shape algebra_simps)
  qed
qed

subsection \<open>bytes\<close>

lemma length_le_bytes [simp]: "length (le_bytes n v) = n"
  by (induction n arbitrary: v) simp_all

lemma from_bytes_le_bytes: "from_bytes (le_bytes n v) = v mod 256 ^ n"
proof (induction n arbitrary: v)
  case 0
  then show ?case by simp
next
  case (Suc n)
  have "uint (word_of_int (v mod 256) :: byte) = v mod 256"
    by (simp add: uint_word_of_int take_bit_eq_mod)
  then show ?case
    using Suc [of "v div 256"] zmod_zmult2_eq [of "256 ^ n" v 256] by simp
qed

lemma from_bytes_to_bytes:
  "0 \<le> v \<Longrightarrow> v < 256 ^ n \<Longrightarrow> from_bytes (le_bytes n v) = v"
  by (simp add: from_bytes_le_bytes)

lemma from_bytes_zeros [simp]: "from_bytes (replicate n 0) = 0"
  by (induction n) simp_all

lemma pack_coeffs_Inr:
  "\<forall>c \<in> set cs. 0 \<le> c \<and> c < 256 ^ w \<Longrightarrow> pack_coeffs w cs = Inr (concat (map (le_bytes w) cs))"
  by (simp add: pack_coeffs_def to_bytes_def mapM_Inr_map [where g = "le_bytes w"])

lemma pack_polys_Inr:
  "\<forall>p \<in> set ps. \<forall>c \<in> set p. 0 \<le> c \<and> c < 256 ^ w \<Longrightarrow>
   pack_polys w ps = Inr (concat (map (\<lambda>p. concat (map (le_bytes w) p)) ps))"
  by (simp add: pack_polys_def pack_coeffs_Inr
        mapM_Inr_map [where g = "\<lambda>p. concat (map (le_bytes w) p)"])

lemma length_concat_le_bytes [simp]: "length (concat (map (le_bytes w) cs)) = w * length cs"
  by (induction cs) simp_all

lemma unpack_coeffs_roundtrip:
  "length cs = n \<Longrightarrow> \<forall>c \<in> set cs. 0 \<le> c \<and> c < 256 ^ w \<Longrightarrow>
   unpack_coeffs from_bytes w n (pre @ concat (map (le_bytes w) cs) @ post) (length pre)
     = (cs, length pre + w * n)"
proof (induction cs arbitrary: n pre)
  case Nil
  then show ?case by auto
next
  case (Cons c cs)
  then obtain n' where n: "n = Suc n'" "length cs = n'"
    by (cases n) auto
  have sl: "slice (pre @ concat (map (le_bytes w) (c # cs)) @ post) (length pre) (length pre + w)
             = le_bytes w c"
    by (simp add: slice_def)
  have ih: "unpack_coeffs from_bytes w n' ((pre @ le_bytes w c) @ concat (map (le_bytes w) cs) @ post)
              (length (pre @ le_bytes w c)) = (cs, length (pre @ le_bytes w c) + w * n')"
    using Cons.IH [OF n(2), of "pre @ le_bytes w c"] Cons.prems by simp
  show ?case
    using ih Cons.prems sl unfolding n(1)
    by (simp add: from_bytes_to_bytes)
qed

lemma unpack_polys_roundtrip:
  "length ps = k \<Longrightarrow> \<forall>p \<in> set ps. length p = N \<and> (\<forall>c \<in> set p. 0 \<le> c \<and> c < 256 ^ w) \<Longrightarrow>
   unpack_polys from_bytes w k
      (pre @ concat (map (\<lambda>p. concat (map (le_bytes w) p)) ps) @ post) (length pre)
     = (ps, length pre + w * N * k)"
proof (induction ps arbitrary: k pre)
  case Nil
  then show ?case by auto
next
  case (Cons p ps)
  then obtain k' where k: "k = Suc k'" "length ps = k'"
    by (cases k) auto
  let ?rest = "concat (map (\<lambda>p. concat (map (le_bytes w) p)) ps) @ post"
  have hd: "unpack_coeffs from_bytes w N (pre @ concat (map (le_bytes w) p) @ ?rest) (length pre)
              = (p, length pre + w * N)"
    using unpack_coeffs_roundtrip [of p N w pre ?rest] Cons.prems by simp
  have ih: "unpack_polys from_bytes w k' ((pre @ concat (map (le_bytes w) p)) @ ?rest)
              (length (pre @ concat (map (le_bytes w) p)))
            = (ps, length (pre @ concat (map (le_bytes w) p)) + w * N * k')"
    using Cons.IH [OF k(2), of "pre @ concat (map (le_bytes w) p)"] Cons.prems by simp
  have len: "length (pre @ concat (map (le_bytes w) p)) = length pre + w * N"
    using Cons.prems by simp
  show ?case
    using hd ih unfolding k(1) len
    by (simp add: algebra_simps)
qed

subsection \<open>zero polynomials\<close>

lemma negacyclic_zero_right: "negacyclic_convolution q a (replicate N 0) = replicate N 0"
proof -
  have "negacyclic_term a (replicate N 0) k i j = 0" if "j < N" for k i j
    using that by (simp add: negacyclic_term_def)
  then have "negacyclic_coeff q a (replicate N 0) k = 0" for k
    by (simp add: negacyclic_coeff_def)
  then show ?thesis
    by (intro nth_equalityI) (simp_all add: negacyclic_convolution_def)
qed

lemma negacyclic_zero_left: "negacyclic_convolution q (replicate N 0) b = replicate N 0"
proof -
  have "negacyclic_term (replicate N 0) b k i j = 0" if "i < N" for k i j
    using that by (simp add: negacyclic_term_def)
  then have "negacyclic_coeff q (replicate N 0) b k = 0" for k
    by (simp add: negacyclic_coeff_def)
  then show ?thesis
    by (intro nth_equalityI) (simp_all add: negacyclic_convolution_def)
qed

lemma poly_mul_zero_right:
  "N \<le> length a \<Longrightarrow> poly_mul q a (replicate N 0) = Inr (replicate N 0)"
  by (simp add: poly_mul_def mul_loop_convolution negacyclic_zero_right)

lemma poly_mul_zero_left:
  "N \<le> length b \<Longrightarrow> poly_mul q (replicate N 0) b = Inr (replicate N 0)"
  by (simp add: poly_mul_def mul_loop_convolution negacyclic_zero_left)

lemma poly_add_zero_left:
  "canonical q p \<Longrightarrow> poly_add q (replicate N 0) p = Inr p"
  by (auto simp: poly_add_def canonical_def intro!: nth_equalityI)

lemma poly_sub_zero_right:
  "canonical q p \<Longrightarrow> poly_sub q p (replicate N 0) = Inr p"
  by (auto simp: poly_sub_def canonical_def intro!: nth_equalityI)

lemma canonical_zero: "0 < q \<Longrightarrow> canonical q (replicate N 0)"
  by (simp add: canonical_def)

subsection \<open>message encoding\<close>

lemma length_encode_step [simp]: "length (encode_step poly i m) = length m"
  by (simp add: encode_step_def Let_def)

lemma bit_position: "t < 8 \<Longrightarrow> (8 * b + t = n) = (b = n div 8 \<and> t = n mod 8)" for b t n :: nat
  by auto

lemma encode_step_bit:
  assumes "length m = 32" "n < N" "b < 32" "t < 8"
  shows "bit (encode_step poly n m ! b) t \<longleftrightarrow>
           bit (m ! b) t \<or> (8 * b + t = n \<and> poly ! n > Kyber_Q div 2)"
proof -
  have "n div 8 < 32" using assms(2) by (simp add: N_def)
  then show ?thesis
    using assms
    by (auto simp: encode_step_def Let_def nth_list_update bit_or_iff bit_push_bit_iff
        bit_1_iff bit_position)
qed

lemma encode_fold_bits:
  "n \<le> N \<Longrightarrow> b < 32 \<Longrightarrow> t < 8 \<Longrightarrow>
   bit (fold (encode_step poly) [0..<n] (replicate 32 0) ! b) t \<longleftrightarrow>
     (8 * b + t < n \<and> poly ! (8 * b + t) > Kyber_Q div 2)"
proof (induction n)
  case 0
  then show ?case by simp
next
  case (Suc n)
  let ?m = "fold (encode_step poly) [0..<n] (replicate 32 0)"
  have len: "length ?m = 32"
    by (rule fold_invariant [where P = "\<lambda>m. length m = 32"]) simp_all
  have "bit (encode_step poly n ?m ! b) t \<longleftrightarrow>
          bit (?m ! b) t \<or> (8 * b + t = n \<and> poly ! n > Kyber_Q div 2)"
    using encode_step_bit [OF len _ Suc.prems(2,3), of n poly] Suc.prems(1) by simp
  then show ?case
    using Suc by (auto simp: less_Suc_eq)
qed

lemma length_encode_fold [simp]:
  "length (fold (encode_step poly) is m) = length m"
  by (induction "is" arbitrary: m) simp_all

text \<open>What \<open>_encode_message\<close> computes: bit \<open>t\<close> of byte \<open>b\<close> is set exactly when
  coefficient \<open>8 * b + t\<close> is greater than \<open>Q // 2\<close>.\<close>

lemma encode_message_bits:
  assumes "N \<le> length poly"
  shows "\<exists>m. encode_message poly = Inr m \<and> length m = 32 \<and>
           (\<forall>b<32. \<forall>t<8. bit (m ! b) t \<longleftrightarrow> poly ! (8 * b + t) > Kyber_Q div 2)"
proof -
  have "8 * b + t < N" if "b < 32" "t < 8" for b t :: nat
    using that by (simp add: N_def)
  then show ?thesis
    using assms by (simp add: encode_message_def encode_fold_bits)
qed

lemma encode_message_below_half:
  assumes "N \<le> length poly" "\<forall>k<N. poly ! k \<le> Kyber_Q div 2"
  shows "encode_message poly = Inr (replicate 32 0)"
proof -
  from encode_message_bits [OF assms(1)] obtain m where m: "encode_message poly = Inr m"
    "length m = 32" "\<forall>b<32. \<forall>t<8. bit (m ! b) t \<longleftrightarrow> poly ! (8 * b + t) > Kyber_Q div 2"
    by blast
  have "m ! b = 0" if "b < 32" for b
  proof (rule bit_word_eqI)
    fix t assume "t < LENGTH(8)"
    then have t: "t < 8" by simp
    then have "8 * b + t < N" using that by (simp add: N_def)
    with m(3) assms(2) that t show "bit (m ! b) t \<longleftrightarrow> bit (0 :: byte) t"
      by (simp add: not_less [symmetric])
  qed
  then have "m = replicate 32 0"
    using m(2) by (intro nth_equalityI) simp_all
  with m(1) show ?thesis by simp
qed

lemma decode_message_range:
  assumes "32 \<le> length m"
  shows "\<exists>p. decode_message m = Inr p \<and> length p = N \<and> (\<forall>c \<in> set p. c = 0 \<or> c = Kyber_Q div 2)"
proof -
  let ?P = "\<lambda>poly :: poly. length poly = N \<and> (\<forall>c \<in> set poly. c = 0 \<or> c = Kyber_Q div 2)"
  have bit01: "x AND 1 = 0 \<or> x AND 1 = 1" for x :: int
    by (simp add: and_one_eq) presburger
  have inner: "?P (if i * 8 + j < N then poly[i * 8 + j := (x AND 1) * (Kyber_Q div 2)] else poly)"
    if "?P poly" for poly i j and x :: int
    using that bit01 [of x] set_update_subset_insert [of poly "i * 8 + j" "(x AND 1) * (Kyber_Q div 2)"]
    by (auto simp: subset_iff)
  have "?P (fold (\<lambda>i poly. fold (\<lambda>j poly.
                  let bit = drop_bit j (uint (m ! i)) AND 1
                  in if i * 8 + j < N then poly[i * 8 + j := bit * (Kyber_Q div 2)] else poly)
                [0..<8] poly) [0..<32] (replicate N 0))"
    apply (rule fold_invariant [where P = ?P])
     apply simp
    apply (rule fold_invariant [where P = ?P])
     apply assumption
    apply (unfold Let_def)
    apply (rule inner)
    apply assumption
    done
  then show ?thesis
    using assms by (simp add: decode_message_def)
qed

text \<open>
  Claim C2 says that decoding the encoding of a 32-byte message \<open>m\<close> returns \<open>m\<close>, since
  each coefficient is rounded to the nearer of 0 and \<open>Q // 2\<close>. The code does not round:
  \<open>_encode_message\<close> sets a bit only when the coefficient is greater than \<open>Q // 2\<close>, and
  \<open>_decode_message\<close> writes \<open>Q // 2\<close> itself for a 1 bit. So for every 32-byte message
  the composition returns 32 zero bytes; it returns \<open>m\<close> only when \<open>m\<close> is zero.
\<close>

theorem message_roundtrip_all_zero:
  "length m = 32 \<Longrightarrow> bind (decode_message m) encode_message = Inr (replicate 32 0)"
proof -
  assume "length m = 32"
  then obtain p where p: "decode_message m = Inr p" "length p = N"
    "\<forall>c \<in> set p. c = 0 \<or> c = Kyber_Q div 2"
    using decode_message_range [of m] by auto
  have "p ! k \<le> Kyber_Q div 2" if "k < N" for k
  proof -
    have "p ! k \<in> set p" using that p(2) by simp
    with p(3) have "p ! k = 0 \<or> p ! k = Kyber_Q div 2" by blast
    then show ?thesis by (auto simp: Kyber_Q_def)
  qed
  then have "\<forall>k<N. p ! k \<le> Kyber_Q div 2" by blast
  then show ?thesis
    using p by (simp add: encode_message_below_half)
qed

theorem message_roundtrip_all_zero_witness:
  "bind (decode_message (1 # replicate 31 0)) encode_message = Inr (replicate 32 0) \<and>
   replicate 32 0 \<noteq> (1 # replicate 31 0 :: bytes)"
proof -
  have "(replicate 32 0 :: bytes) ! 0 \<noteq> (1 # replicate 31 0) ! 0"
    by simp
  then have "replicate 32 0 \<noteq> (1 # replicate 31 0 :: bytes)"
    by metis
  then show ?thesis
    using message_roundtrip_all_zero [of "1 # replicate 31 0"] by simp
qed

subsection \<open>shapes\<close>

lemma poly_mul_canonical:
  "N \<le> length a \<Longrightarrow> N \<le> length b \<Longrightarrow> 0 < q \<Longrightarrow>
   \<exists>r. poly_mul q a b = Inr r \<and> canonical q r"
  by (simp add: poly_mul_def canonical_mul_loop)

lemma poly_add_canonical:
  "N \<le> length a \<Longrightarrow> N \<le> length b \<Longrightarrow> 0 < q \<Longrightarrow>
   \<exists>r. poly_add q a b = Inr r \<and> canonical q r"
  by (simp add: poly_add_def canonical_map_mod)

lemma poly_sub_canonical:
  "N \<le> length a \<Longrightarrow> N \<le> length b \<Longrightarrow> 0 < q \<Longrightarrow>
   \<exists>r. poly_sub q a b = Inr r \<and> canonical q r"
  by (simp add: poly_sub_def canonical_map_mod)

lemma canonical_length: "canonical q p \<Longrightarrow> length p = N"
  by (simp add: canonical_def)

lemma poly_add_zeros [simp]:
  "poly_add q (replicate N 0) (replicate N 0) = Inr (replicate N 0)"
  by (auto simp: poly_add_def intro!: nth_equalityI)

lemma vector_dot_product_canonical:
  assumes "length a \<le> length b" "\<forall>p \<in> set a. N \<le> length p" "\<forall>p \<in> set b. N \<le> length p" "0 < q"
  shows "\<exists>r. vector_dot_product q a b = Inr r \<and> canonical q r"
  unfolding vector_dot_product_def
proof (rule foldM_invariant [where P = "canonical q"])
  show "canonical q (replicate N 0)" using assms(4) by (rule canonical_zero)
next
  fix i s assume i: "i \<in> set [0..<length a]" and s: "canonical q s"
  then have "i < length b" "N \<le> length (a ! i)" "N \<le> length (b ! i)"
    using assms by auto
  then obtain r where r: "poly_mul q (a ! i) (b ! i) = Inr r" "canonical q r"
    using poly_mul_canonical assms(4) by blast
  then show "\<exists>s'. bind (index b i) (\<lambda>bi. bind (poly_mul q (a ! i) bi) (poly_add q s)) = Inr s'
                \<and> canonical q s'"
    using \<open>i < length b\<close> poly_add_canonical [of s r q] s assms(4)
    by (simp add: canonical_length)
qed

lemma vector_dot_product_zero_right:
  assumes "length a \<le> k" "\<forall>p \<in> set a. N \<le> length p"
  shows "vector_dot_product q a (replicate k (replicate N 0)) = Inr (replicate N 0)"
proof -
  have "\<exists>r. vector_dot_product q a (replicate k (replicate N 0)) = Inr r \<and> r = replicate N 0"
    unfolding vector_dot_product_def
  proof (rule foldM_invariant [where P = "\<lambda>r. r = replicate N 0"])
    fix i and s :: poly assume i: "i \<in> set [0..<length a]" and s: "s = replicate N 0"
    then have "i < k" "N \<le> length (a ! i)" using assms by auto
    then show "\<exists>s'. bind (index (replicate k (replicate N 0)) i)
                       (\<lambda>bi. bind (poly_mul q (a ! i) bi) (poly_add q s)) = Inr s' \<and> s' = replicate N 0"
      using s by (simp add: poly_mul_zero_right)
  qed simp
  then show ?thesis by simp
qed

lemma vector_dot_product_zero_left:
  assumes "k \<le> length b" "\<forall>p \<in> set b. N \<le> length p"
  shows "vector_dot_product q (replicate k (replicate N 0)) b = Inr (replicate N 0)"
proof -
  have "\<exists>r. vector_dot_product q (replicate k (replicate N 0)) b = Inr r \<and> r = replicate N 0"
    unfolding vector_dot_product_def
  proof (rule foldM_invariant [where P = "\<lambda>r. r = replicate N 0"])
    fix i and s :: poly
    assume i: "i \<in> set [0..<length (replicate k (replicate N (0::int)))]" and s: "s = replicate N 0"
    then have "i < length b" "i < k" "N \<le> length (b ! i)" using assms by auto
    then show "\<exists>s'. bind (index b i)
                       (\<lambda>bi. bind (poly_mul q (replicate k (replicate N 0) ! i) bi) (poly_add q s)) = Inr s'
                    \<and> s' = replicate N 0"
      using s by (simp add: poly_mul_zero_left)
  qed simp
  then show ?thesis by simp
qed

lemma vector_add_zeros:
  "vector_add q (replicate k (replicate N 0)) (replicate k (replicate N 0)) = Inr (replicate k (replicate N 0))"
proof -
  have "vector_add q (replicate k (replicate N 0)) (replicate k (replicate N 0))
          = Inr (map (\<lambda>i. replicate N 0) [0..<k])"
    unfolding vector_add_def length_replicate
    by (rule mapM_Inr_map) simp
  then show ?thesis by (simp add: map_replicate_const)
qed

lemma matrix_transpose_vector_mul_zero:
  assumes "length A = k" "0 < k" "\<forall>row \<in> set A. length row = k \<and> (\<forall>p \<in> set row. N \<le> length p)"
  shows "matrix_transpose_vector_mul q A (replicate k (replicate N 0)) = Inr (replicate k (replicate N 0))"
proof -
  have A0: "index A 0 = Inr (A ! 0)" "length (A ! 0) = k"
    using assms by auto
  have col: "foldM (\<lambda>i poly_sum. bind (index (A ! i) j) (\<lambda>Aij. bind (index (replicate k (replicate N 0)) i)
                     (\<lambda>vi. bind (poly_mul q Aij vi) (\<lambda>poly_prod. poly_add q poly_sum poly_prod))))
               [0..<length A] (replicate N 0) = Inr (replicate N 0)" if "j < k" for j
  proof -
    have "\<exists>r. foldM (\<lambda>i poly_sum. bind (index (A ! i) j) (\<lambda>Aij. bind (index (replicate k (replicate N 0)) i)
                     (\<lambda>vi. bind (poly_mul q Aij vi) (\<lambda>poly_prod. poly_add q poly_sum poly_prod))))
               [0..<length A] (replicate N 0) = Inr r \<and> r = replicate N 0"
    proof (rule foldM_invariant [where P = "\<lambda>r. r = replicate N 0"])
      fix i and s :: poly assume i: "i \<in> set [0..<length A]" and s: "s = replicate N 0"
      then have "i < k" "A ! i \<in> set A" using assms(1) by auto
      then have "j < length (A ! i)" "N \<le> length (A ! i ! j)"
        using assms(3) that by auto
      then show "\<exists>s'. bind (index (A ! i) j) (\<lambda>Aij. bind (index (replicate k (replicate N 0)) i)
                     (\<lambda>vi. bind (poly_mul q Aij vi) (\<lambda>poly_prod. poly_add q s poly_prod))) = Inr s'
                    \<and> s' = replicate N 0"
        using s \<open>i < k\<close> by (simp add: poly_mul_zero_right)
    qed simp
    then show ?thesis by simp
  qed
  have "mapM (\<lambda>j. foldM (\<lambda>i poly_sum. bind (index (A ! i) j) (\<lambda>Aij. bind (index (replicate k (replicate N 0)) i)
                     (\<lambda>vi. bind (poly_mul q Aij vi) (\<lambda>poly_prod. poly_add q poly_sum poly_prod))))
               [0..<length A] (replicate N 0)) [0..<k] = Inr (map (\<lambda>j. replicate N 0) [0..<k])"
    by (rule mapM_Inr_map) (simp add: col)
  then show ?thesis
    unfolding matrix_transpose_vector_mul_def using A0
    by (simp add: map_replicate_const)
qed

subsection \<open>samplers: shapes\<close>

lemma length_uniform_step [simp]: "length (fst (uniform_step q stream i st)) = length (fst st)"
  by (cases st) (simp add: uniform_step_def Let_def split: prod.splits)

lemma length_uniform_fold [simp]:
  "length (fst (fold (uniform_step q stream) is st)) = length (fst st)"
  by (induction "is" arbitrary: st) simp_all

lemma length_sample_uniform_poly [simp]: "length (sample_uniform_poly q shake seed) = N"
  by (simp add: sample_uniform_poly_def Let_def)

lemma gen_matrix_shape:
  "length (gen_matrix shake rho) = Kyber_K \<and>
   (\<forall>row \<in> set (gen_matrix shake rho). length row = Kyber_K \<and> (\<forall>p \<in> set row. N \<le> length p))"
  by (auto simp: gen_matrix_def)

lemma replicate_update_same [simp]: "(replicate n x)[i := x] = replicate n x"
  by (metis length_replicate list_update_beyond list_update_id not_le_imp_less nth_replicate)

lemma stream_bit_zero: "\<forall>x \<in> set stream. x = 0 \<Longrightarrow> stream_bit stream k = 0"
proof -
  assume z: "\<forall>x \<in> set stream. x = 0"
  have "stream ! (k div 8) = 0" if "k div 8 < length stream"
    using z that nth_mem by blast
  then show ?thesis
    by (simp add: stream_bit_def)
qed

lemma cbd_zero_stream:
  assumes "\<forall>x \<in> set stream. x = 0"
  shows "cbd q stream eta = replicate N 0"
proof -
  have inner: "fold (\<lambda>j (a, b). (a + stream_bit stream (2 * eta * i + j),
                     b + stream_bit stream (2 * eta * i + eta + j))) js (0, 0) = (0, 0)" for i js
    by (rule fold_invariant [where P = "\<lambda>ab. ab = (0, 0)"]) (simp_all add: stream_bit_zero [OF assms])
  show ?thesis
    unfolding cbd_def
    by (rule fold_invariant [where P = "\<lambda>p. p = replicate N 0"]) (simp_all add: inner)
qed

lemma digest_zero: "digest (\<lambda>_ _. 0) d n = replicate n 0"
  by (simp add: digest_def map_replicate_const)

lemma sample_poly_cbd_zero:
  "sample_poly_cbd (\<lambda>_ _. 0) seed eta k = replicate k (replicate N 0)"
  by (simp add: sample_poly_cbd_def digest_zero cbd_zero_stream map_replicate_const)

subsection \<open>unpacked keys and ciphertexts\<close>

lemma unpack_public_key_shape:
  "length (fst (unpack_public_key pk)) = Kyber_K \<and>
   (\<forall>p \<in> set (fst (unpack_public_key pk)). length p = N)"
  using unpack_polys_shape [of from_bytes 2 Kyber_K pk 32]
  by (simp add: unpack_public_key_def)

lemma unpack_private_key_shape:
  "length (unpack_private_key sk) = Kyber_K \<and> (\<forall>p \<in> set (unpack_private_key sk). length p = N)"
  using unpack_polys_shape [of from_bytes 2 Kyber_K sk 0]
  by (simp add: unpack_private_key_def)

lemma unpack_ciphertext_shape:
  "length (fst (unpack_ciphertext ct)) = Kyber_K \<and>
   (\<forall>p \<in> set (fst (unpack_ciphertext ct)). length p = N) \<and>
   length (snd (unpack_ciphertext ct)) = N"
  using unpack_polys_shape [of from_bytes 2 Kyber_K ct 0]
    unpack_coeffs_shape [of from_bytes 2 N ct]
  by (simp add: unpack_ciphertext_def case_prod_beta Let_def)

lemma unpack_pack_ciphertext:
  assumes "length u = Kyber_K" "\<forall>p \<in> set u. length p = N \<and> (\<forall>c \<in> set p. 0 \<le> c \<and> c < 256 ^ 2)"
    "length v = N" "\<forall>c \<in> set v. 0 \<le> c \<and> c < 256 ^ 2"
  shows "\<exists>ct. pack_ciphertext u v = Inr ct \<and> unpack_ciphertext ct = (u, v)"
proof -
  let ?du = "concat (map (\<lambda>p. concat (map (le_bytes 2) p)) u)"
  let ?dv = "concat (map (le_bytes 2) v)"
  have pk: "pack_ciphertext u v = Inr (?du @ ?dv)"
    using assms by (simp add: pack_ciphertext_def pack_polys_Inr pack_coeffs_Inr)
  have lu: "length ?du = 2 * N * Kyber_K"
    using assms(1,2) by (simp add: length_concat o_def sum_list_triv cong: map_cong)
  have u: "unpack_polys from_bytes 2 Kyber_K (?du @ ?dv) 0 = (u, 2 * N * Kyber_K)"
    using unpack_polys_roundtrip [of u Kyber_K 2 "[]" ?dv] assms(1,2) by simp
  have v: "unpack_coeffs from_bytes 2 N (?du @ ?dv) (2 * N * Kyber_K) = (v, 2 * N * Kyber_K + 2 * N)"
    using unpack_coeffs_roundtrip [of v N 2 ?du "[]"] assms(3,4) lu by simp
  show ?thesis
    using pk u v by (simp add: unpack_ciphertext_def)
qed

lemma decode_message_canonical:
  assumes "32 \<le> length m"
  shows "\<exists>p. decode_message m = Inr p \<and> canonical Kyber_Q p \<and> (\<forall>k<N. p ! k \<le> Kyber_Q div 2)"
proof -
  from decode_message_range [OF assms] obtain p where p: "decode_message m = Inr p"
    "length p = N" "\<forall>c \<in> set p. c = 0 \<or> c = Kyber_Q div 2"
    by blast
  have "canonical Kyber_Q p"
    unfolding canonical_def using p(2,3) by (auto simp: Kyber_Q_def)
  moreover have "p ! k \<le> Kyber_Q div 2" if "k < N" for k
  proof -
    have "p ! k \<in> set p" using that p(2) by simp
    with p(3) have "p ! k = 0 \<or> p ! k = Kyber_Q div 2" by blast
    then show ?thesis by (auto simp: Kyber_Q_def)
  qed
  ultimately show ?thesis using p(1) by blast
qed

text \<open>The ciphertext that \<open>encaps\<close> builds when every sampled noise polynomial is zero.\<close>

lemma encaps_zero_noise:
  assumes "decode_message m = Inr p" "canonical Kyber_Q p"
  shows "\<exists>ct. pack_ciphertext (replicate Kyber_K (replicate N 0)) p = Inr ct \<and>
               unpack_ciphertext ct = (replicate Kyber_K (replicate N 0), p) \<and>
               encaps (\<lambda>_ _. 0) sha3 pk m = Inr (ct, sha3_256 sha3 (m @ sha3_256 sha3 ct))"
proof -
  let ?Z = "replicate Kyber_K (replicate N (0::int))"
  obtain t rho where tr: "unpack_public_key pk = (t, rho)"
    by (cases "unpack_public_key pk")
  have t: "length t = Kyber_K" "\<forall>q \<in> set t. N \<le> length q"
    using unpack_public_key_shape [of pk] tr by auto
  have u1: "matrix_transpose_vector_mul Kyber_Q (gen_matrix (\<lambda>_ _. 0) rho) ?Z = Inr ?Z"
    using gen_matrix_shape [of "\<lambda>_ _. 0" rho]
    by (intro matrix_transpose_vector_mul_zero) (simp_all add: Kyber_K_def)
  have v1: "vector_dot_product Kyber_Q t ?Z = Inr (replicate N 0)"
    using t by (intro vector_dot_product_zero_right) simp_all
  have v3: "poly_add Kyber_Q (replicate N 0) p = Inr p"
    using assms(2) by (rule poly_add_zero_left)
  have rng: "\<forall>c \<in> set p. 0 \<le> c \<and> c < 256 ^ 2" "length p = N"
    using assms(2) by (auto simp: canonical_def Kyber_Q_def)
  obtain ct where ct: "pack_ciphertext ?Z p = Inr ct" "unpack_ciphertext ct = (?Z, p)"
    using unpack_pack_ciphertext [of ?Z p] rng by auto
  have "encaps (\<lambda>_ _. 0) sha3 pk m = Inr (ct, sha3_256 sha3 (m @ sha3_256 sha3 ct))"
    unfolding encaps_def tr
    by (simp add: sample_poly_cbd_zero u1 vector_add_zeros v1 assms(1) v3 ct(1))
  with ct show ?thesis by blast
qed

lemma decrypt_zero_noise:
  assumes "unpack_ciphertext ct = (replicate Kyber_K (replicate N 0), p)" "canonical Kyber_Q p"
    "\<forall>k<N. p ! k \<le> Kyber_Q div 2"
  shows "decrypt ct sk = Inr (replicate 32 0)"
proof -
  have s: "length (unpack_private_key sk) \<le> Kyber_K" "\<forall>q \<in> set (unpack_private_key sk). N \<le> length q"
    using unpack_private_key_shape [of sk] by auto
  have d: "vector_dot_product Kyber_Q (unpack_private_key sk) (replicate Kyber_K (replicate N 0)) = Inr (replicate N 0)"
    using s by (rule vector_dot_product_zero_right)
  have "N \<le> length p" using assms(2) by (simp add: canonical_def)
  then show ?thesis
    unfolding decrypt_def
    by (simp add: assms(1) d poly_sub_zero_right [OF assms(2)] encode_message_below_half assms(3))
qed

text \<open>
  Claim C1 says that \<open>decaps\<close> reproduces the shared secret of \<open>encaps\<close>. With the noise
  polynomials \<open>r_vec\<close>, \<open>e1\<close>, \<open>e2\<close> all zero (a SHAKE-128 stream of zero bytes), and for
  every public key, private key, SHA3-256 and 32-byte message \<open>m\<close>: \<open>encaps\<close> returns the
  secret derived from \<open>m\<close>, and \<open>decaps\<close> on its ciphertext recovers 32 zero bytes and
  returns the secret derived from those. The secrets are derived from different messages
  unless \<open>m\<close> is zero.
\<close>

theorem kem_roundtrip_noise_free:
  assumes "length m = 32"
  shows "\<exists>ct. encaps (\<lambda>_ _. 0) sha3 pk m = Inr (ct, sha3_256 sha3 (m @ sha3_256 sha3 ct)) \<and>
              decrypt ct sk = Inr (replicate 32 0) \<and>
              decaps sha3 ct sk = Inr (sha3_256 sha3 (replicate 32 0 @ sha3_256 sha3 ct))"
proof -
  from decode_message_canonical [of m] assms obtain p where p: "decode_message m = Inr p"
    "canonical Kyber_Q p" "\<forall>k<N. p ! k \<le> Kyber_Q div 2"
    by auto
  from encaps_zero_noise [OF p(1,2), of sha3 pk] obtain ct where
    ct: "unpack_ciphertext ct = (replicate Kyber_K (replicate N 0), p)"
      "encaps (\<lambda>_ _. 0) sha3 pk m = Inr (ct, sha3_256 sha3 (m @ sha3_256 sha3 ct))"
    by blast
  have "decrypt ct sk = Inr (replicate 32 0)"
    using ct(1) p(2,3) by (rule decrypt_zero_noise)
  with ct(2) show ?thesis
    by (auto simp: decaps_def)
qed

theorem kem_roundtrip_noise_free_witness:
  "\<forall>sha3 pk sk. \<exists>ct.
     encaps (\<lambda>_ _. 0) sha3 pk (1 # replicate 31 0)
       = Inr (ct, sha3_256 sha3 ((1 # replicate 31 0) @ sha3_256 sha3 ct)) \<and>
     decrypt ct sk = Inr (replicate 32 0) \<and>
     decaps sha3 ct sk = Inr (sha3_256 sha3 (replicate 32 0 @ sha3_256 sha3 ct))"
  using kem_roundtrip_noise_free [of "1 # replicate 31 0"] by simp

text \<open>What \<open>decaps\<close> recovers in general: bit \<open>t\<close> of byte \<open>b\<close> of the message is set
  exactly when coefficient \<open>8 * b + t\<close> of \<open>v - s * u\<close> is greater than \<open>Q // 2\<close>.\<close>

lemma decrypt_threshold:
  "\<exists>d r m. vector_dot_product Kyber_Q (unpack_private_key sk) (fst (unpack_ciphertext ct)) = Inr d \<and>
           poly_sub Kyber_Q (snd (unpack_ciphertext ct)) d = Inr r \<and>
           decrypt ct sk = Inr m \<and> length m = 32 \<and>
           (\<forall>b<32. \<forall>t<8. bit (m ! b) t \<longleftrightarrow> r ! (8 * b + t) > Kyber_Q div 2)"
proof -
  obtain u v where uv: "unpack_ciphertext ct = (u, v)"
    by (cases "unpack_ciphertext ct")
  have shape: "length u = Kyber_K" "\<forall>p \<in> set u. N \<le> length p" "length v = N"
    using unpack_ciphertext_shape [of ct] uv by auto
  have s: "length (unpack_private_key sk) \<le> length u" "\<forall>q \<in> set (unpack_private_key sk). N \<le> length q"
    using unpack_private_key_shape [of sk] shape(1) by auto
  obtain d where d: "vector_dot_product Kyber_Q (unpack_private_key sk) u = Inr d" "canonical Kyber_Q d"
    using vector_dot_product_canonical [OF s(1) s(2) shape(2), of Kyber_Q] by (auto simp: Kyber_Q_def)
  obtain r where r: "poly_sub Kyber_Q v d = Inr r" "canonical Kyber_Q r"
    using poly_sub_canonical [of v d Kyber_Q] shape(3) d(2)
    by (auto simp: canonical_def Kyber_Q_def)
  obtain m where m: "encode_message r = Inr m" "length m = 32"
    "\<forall>b<32. \<forall>t<8. bit (m ! b) t \<longleftrightarrow> r ! (8 * b + t) > Kyber_Q div 2"
    using encode_message_bits [of r] r(2) by (auto simp: canonical_def)
  have "decrypt ct sk = Inr m"
    unfolding decrypt_def by (simp add: uv d r m)
  with d r m uv show ?thesis by auto
qed

subsection \<open>decaps on arbitrary bytes\<close>

lemma decrypt_total: "\<exists>m. decrypt ct sk = Inr m \<and> length m = 32"
proof -
  obtain u v where uv: "unpack_ciphertext ct = (u, v)"
    by (cases "unpack_ciphertext ct")
  have shape: "length u = Kyber_K" "\<forall>p \<in> set u. N \<le> length p" "length v = N"
    using unpack_ciphertext_shape [of ct] uv by auto
  have s: "length (unpack_private_key sk) \<le> length u" "\<forall>q \<in> set (unpack_private_key sk). N \<le> length q"
    using unpack_private_key_shape [of sk] shape(1) by auto
  obtain d where d: "vector_dot_product Kyber_Q (unpack_private_key sk) u = Inr d" "canonical Kyber_Q d"
    using vector_dot_product_canonical [OF s(1) s(2) shape(2), of Kyber_Q] by (auto simp: Kyber_Q_def)
  obtain r where r: "poly_sub Kyber_Q v d = Inr r" "canonical Kyber_Q r"
    using poly_sub_canonical [of v d Kyber_Q] shape(3) d(2)
    by (auto simp: canonical_def Kyber_Q_def)
  obtain m where m: "encode_message r = Inr m" "length m = 32"
    using encode_message_bits [of r] r(2) by (auto simp: canonical_def)
  show ?thesis
    unfolding decrypt_def by (simp add: uv d r m)
qed

text \<open>
  Claim C10. For every ciphertext and private key, of any length, \<open>decaps\<close> raises nothing
  and returns 32 bytes; a coefficient whose 2-byte slice starts at or past the end of the
  data is read as 0 by \<open>_unpack_private_key\<close> and \<open>_unpack_ciphertext\<close>.
\<close>

theorem decaps_total:
  "(\<exists>ss. decaps sha3 ct sk = Inr ss \<and> length ss = 32) \<and>
   (\<forall>i<Kyber_K. \<forall>j<N. length sk \<le> 2 * (N * i + j) \<longrightarrow> unpack_private_key sk ! i ! j = 0) \<and>
   (\<forall>i<Kyber_K. \<forall>j<N. length ct \<le> 2 * (N * i + j) \<longrightarrow> fst (unpack_ciphertext ct) ! i ! j = 0) \<and>
   (\<forall>j<N. length ct \<le> 2 * (N * Kyber_K + j) \<longrightarrow> snd (unpack_ciphertext ct) ! j = 0)"
proof (intro conjI allI impI)
  show "\<exists>ss. decaps sha3 ct sk = Inr ss \<and> length ss = 32"
    using decrypt_total [of ct sk] by (auto simp: decaps_def sha3_256_def digest_def)
next
  fix i j assume "i < Kyber_K" "j < N" "length sk \<le> 2 * (N * i + j)"
  then show "unpack_private_key sk ! i ! j = 0"
    unfolding unpack_private_key_def
    by (intro unpack_polys_missing) simp_all
next
  fix i j assume "i < Kyber_K" "j < N" "length ct \<le> 2 * (N * i + j)"
  then show "fst (unpack_ciphertext ct) ! i ! j = 0"
    using unpack_polys_missing [of i Kyber_K j ct 0 2 from_bytes]
    by (simp add: unpack_ciphertext_def case_prod_beta Let_def)
next
  fix j assume "j < N" "length ct \<le> 2 * (N * Kyber_K + j)"
  then show "snd (unpack_ciphertext ct) ! j = 0"
    using unpack_coeffs_missing [of j N ct "2 * N * Kyber_K" 2 from_bytes]
      unpack_polys_shape [of from_bytes 2 Kyber_K ct 0]
    by (simp add: unpack_ciphertext_def case_prod_beta Let_def algebra_simps)
qed

theorem decaps_total_witness:
  "(\<exists>ss. decaps (\<lambda>_ _. 0) [] [7] = Inr ss \<and> length ss = 32) \<and>
   unpack_private_key [7] ! 0 ! 1 = 0 \<and>
   fst (unpack_ciphertext []) ! 3 ! 255 = 0 \<and>
   snd (unpack_ciphertext []) ! 0 = 0"
  using decaps_total [of "\<lambda>_ _. 0" "[]" "[7]"]
  by (simp add: Kyber_K_def N_def)

section \<open>The signature engines (signatures.py and quantum_signatures.py)\<close>

text \<open>
  The two modules each define a class \<open>QuantumSignature\<close> with the same constants.
  Names with the prefix \<open>sig_\<close> are methods of \<open>signatures.py\<close>, names with the prefix
  \<open>qs_\<close> are methods of \<open>quantum_signatures.py\<close>. In both, \<open>shake\<close> is SHAKE-256.
\<close>

definition Sig_K :: nat where
  "Sig_K = 4"

definition Sig_L :: nat where
  "Sig_L = 4"

definition TAU :: nat where
  "TAU = 39"

definition BETA :: int where
  "BETA = 78"

definition GAMMA1 :: int where
  "GAMMA1 = 2 ^ 17"

definition GAMMA2 :: int where
  "GAMMA2 = (Sig_Q - 1) div 88"

text \<open>
  \<open>_sample_uniform_poly\<close> of \<open>signatures.py\<close>: a candidate is the little-endian value of
  a 5-byte chunk; it is reduced modulo \<open>Q\<close> and then compared with \<open>Q\<close>.
\<close>

definition sig_candidate :: "bytes \<Rightarrow> nat \<Rightarrow> int" where
  "sig_candidate stream i =
     fold (\<lambda>k coeff. if i + k < length stream
                      then coeff + push_bit (8 * k) (uint (stream ! (i + k))) else coeff)
       [0..<5] 0"

definition sig_uniform_step :: "bytes \<Rightarrow> nat \<Rightarrow> poly \<times> nat \<Rightarrow> poly \<times> nat" where
  "sig_uniform_step stream i = (\<lambda>(poly, j).
     if j \<ge> N then (poly, j)
     else
       let coeff = sig_candidate stream i;
           coeff = coeff mod Sig_Q
       in if coeff < Sig_Q then (poly[j := coeff], j + 1) else (poly, j))"

definition sig_sample_uniform_poly :: "xof \<Rightarrow> bytes \<Rightarrow> poly" where
  "sig_sample_uniform_poly shake seed =
     (let stream = digest shake seed (5 * N)
      in fst (fold (sig_uniform_step stream) (map (\<lambda>c. 5 * c) [0..<N]) (replicate N 0, 0)))"

text \<open>
  \<open>_sample_in_ball\<close> of \<open>signatures.py\<close>, for \<open>tau \<le> N\<close>: the loop runs over
  \<open>range(N - tau, N)\<close> and reads one stream byte at \<open>pos\<close> in each iteration.
\<close>

definition sig_ball_step :: "bytes \<Rightarrow> nat \<Rightarrow> nat \<Rightarrow> poly \<times> nat \<Rightarrow> poly \<times> nat" where
  "sig_ball_step stream tau i = (\<lambda>(poly, pos).
     let signs = uint (stream ! 0);
         j = unat (stream ! pos) mod (i + 1);
         pos = pos + 1;
         poly = poly[i := poly ! j];
         poly = poly[j := (if drop_bit (i - (N - tau)) signs AND 1 \<noteq> 0 then 1 else - 1)]
     in (poly, pos))"

definition sig_sample_in_ball :: "xof \<Rightarrow> bytes \<Rightarrow> nat \<Rightarrow> poly" where
  "sig_sample_in_ball shake seed tau =
     (let stream = digest shake seed (8 + tau)
      in fst (fold (sig_ball_step stream tau) [N - tau..<N] (replicate N 0, 8)))"

text \<open>
  \<open>_sample_challenge\<close> of \<open>quantum_signatures.py\<close>: a \<open>while\<close> loop over the 32 bytes
  of the stream, which stops early once \<open>TAU\<close> positions are set.
\<close>

function qs_challenge_loop :: "bytes \<Rightarrow> nat \<Rightarrow> nat set \<Rightarrow> poly \<Rightarrow> poly" where
  "qs_challenge_loop stream i positions poly =
     (if card positions < TAU \<and> i < length stream
      then
        let pos = unat (stream ! i) mod N
        in if pos \<notin> positions
           then qs_challenge_loop stream (i + 1) (insert pos positions)
                  (poly[pos := (if drop_bit 7 (uint (stream ! i)) \<noteq> 0 then 1 else - 1)])
           else qs_challenge_loop stream (i + 1) positions poly
      else poly)"
  by pat_completeness auto
termination
  by (relation "measure (\<lambda>(stream, i, positions, poly). length stream - i)") auto

definition qs_sample_challenge :: "xof \<Rightarrow> bytes \<Rightarrow> poly" where
  "qs_sample_challenge shake seed =
     qs_challenge_loop (digest shake seed 32) 0 {} (replicate N 0)"

text \<open>The number of nonzero coefficients of a polynomial.\<close>

definition nonzeros :: "poly \<Rightarrow> nat" where
  "nonzeros p = length (filter (\<lambda>c. c \<noteq> 0) p)"

section \<open>Facts about the samplers of the signature engines\<close>

lemma sig_uniform_fold:
  "n \<le> N \<Longrightarrow>
   fold (sig_uniform_step stream) (map (\<lambda>c. 5 * c) [0..<n]) (replicate N 0, 0)
     = (map (\<lambda>c. sig_candidate stream (5 * c) mod Sig_Q) [0..<n] @ replicate (N - n) 0, n)"
proof (induction n)
  case 0
  then show ?case by simp
next
  case (Suc n)
  then have n: "n < N" by simp
  have q: "sig_candidate stream (5 * n) mod Sig_Q < Sig_Q"
    by (simp add: Sig_Q_def)
  have rep: "replicate (N - n) (0::int) = 0 # replicate (N - Suc n) 0"
    using n by (simp add: Suc_diff_Suc flip: replicate_Suc)
  show ?case
    using Suc n q
    by (simp add: sig_uniform_step_def Let_def rep list_update_append)
qed

text \<open>
  Claim C5 says that the uniform sampler rejects every candidate that is \<open>\<ge> Q\<close>, so that
  no coefficient is the modular reduction of an out-of-range candidate. In
  \<open>signatures.py\<close> the candidate is reduced modulo \<open>Q\<close> before it is compared with \<open>Q\<close>:
  the comparison always succeeds, nothing is rejected, and coefficient \<open>c\<close> is the \<open>c\<close>-th
  5-byte candidate modulo \<open>Q\<close>, for every seed and hash.
\<close>

theorem sig_uniform_reduces_every_candidate:
  "sig_sample_uniform_poly shake seed =
     map (\<lambda>c. sig_candidate (digest shake seed (5 * N)) (5 * c) mod Sig_Q) [0..<N]"
  by (simp add: sig_sample_uniform_poly_def Let_def sig_uniform_fold)

lemma digest_nth: "i < n \<Longrightarrow> digest h d n ! i = h d i"
  by (simp add: digest_def)

lemma sig_candidate_value:
  "i + 4 < length stream \<Longrightarrow>
   sig_candidate stream i =
     uint (stream ! i) + 2 ^ 8 * uint (stream ! (i + 1)) + 2 ^ 16 * uint (stream ! (i + 2))
       + 2 ^ 24 * uint (stream ! (i + 3)) + 2 ^ 32 * uint (stream ! (i + 4))"
proof -
  have five: "[0..<5] = [0, 1, 2, 3, 4 :: nat]"
    by code_simp
  assume "i + 4 < length stream"
  then show ?thesis
    by (simp add: sig_candidate_def five push_bit_eq_mult)
qed

text \<open>
  The stream here starts with the first five bytes of SHAKE-256 of the empty input,
  \<open>46 b9 dd 2b 0b\<close>: the candidate 47980591430 is far above \<open>Q\<close>, and coefficient 0 is
  its residue 2704105.
\<close>

theorem sig_uniform_reduces_every_candidate_witness:
  "sig_candidate (digest (\<lambda>d i. [0x46, 0xb9, 0xdd, 0x2b, 0x0b] ! (i mod 5)) [] (5 * N)) (5 * 0) = 47980591430 \<and>
   Sig_Q \<le> 47980591430 \<and>
   sig_sample_uniform_poly (\<lambda>d i. [0x46, 0xb9, 0xdd, 0x2b, 0x0b] ! (i mod 5)) [] ! 0 = 2704105"
proof -
  let ?h = "\<lambda>(d::bytes) i. [0x46, 0xb9, 0xdd, 0x2b, 0x0b :: byte] ! (i mod 5)"
  have c: "sig_candidate (digest ?h [] (5 * N)) (5 * 0) = 47980591430"
    by (simp add: sig_candidate_value digest_nth N_def digest_def)
  have "sig_sample_uniform_poly ?h [] ! 0 = 47980591430 mod Sig_Q"
    using c by (simp add: sig_uniform_reduces_every_candidate [of ?h "[]"] N_def)
  then show ?thesis
    using c by (simp add: Sig_Q_def)
qed

lemma filter_update_count:
  "i < length xs \<Longrightarrow>
   length (filter P (xs[i := v])) + (if P (xs ! i) then 1 else 0)
     = length (filter P xs) + (if P v then 1 else 0)"
proof (induction xs arbitrary: i)
  case Nil
  then show ?case by simp
next
  case (Cons x xs)
  then show ?case
    by (cases i) auto
qed

lemma nonzeros_update_le: "nonzeros (p[i := v]) \<le> Suc (nonzeros p)"
proof (cases "i < length p")
  case True
  then show ?thesis
    using filter_update_count [of i p "\<lambda>c. c \<noteq> 0" v]
    by (auto simp: nonzeros_def split: if_splits)
next
  case False
  then have "p[i := v] = p" by (simp add: list_update_beyond)
  then show ?thesis by simp
qed

lemma nonzeros_replicate_zero [simp]: "nonzeros (replicate n 0) = 0"
  by (simp add: nonzeros_def)

declare qs_challenge_loop.simps [simp del]

lemma qs_challenge_loop_nonzeros:
  "nonzeros poly \<le> i \<Longrightarrow> i \<le> length stream \<Longrightarrow>
   nonzeros (qs_challenge_loop stream i positions poly) \<le> length stream"
proof (induction stream i positions poly rule: qs_challenge_loop.induct)
  case (1 stream i positions poly)
  show ?case
  proof (cases "card positions < TAU \<and> i < length stream")
    case False
    then show ?thesis
      using "1.prems" by (subst qs_challenge_loop.simps) auto
  next
    case True
    let ?pos = "unat (stream ! i) mod N"
    let ?v = "if drop_bit 7 (uint (stream ! i)) \<noteq> 0 then 1 else - 1 :: int"
    show ?thesis
    proof (cases "?pos \<in> positions")
      case True
      have "nonzeros (qs_challenge_loop stream (i + 1) positions poly) \<le> length stream"
        using "1.IH"(2) [of ?pos] True
          "1.prems" \<open>card positions < TAU \<and> i < length stream\<close> by simp
      then show ?thesis
        using True \<open>card positions < TAU \<and> i < length stream\<close>
        by (subst qs_challenge_loop.simps) (simp add: Let_def)
    next
      case False
      have "nonzeros (poly[?pos := ?v]) \<le> i + 1"
        using nonzeros_update_le [of poly ?pos ?v] "1.prems"(1) by simp
      then have "nonzeros (qs_challenge_loop stream (i + 1) (insert ?pos positions) (poly[?pos := ?v]))
                   \<le> length stream"
        using "1.IH"(1) [of ?pos] False
          \<open>card positions < TAU \<and> i < length stream\<close> by simp
      then show ?thesis
        using False \<open>card positions < TAU \<and> i < length stream\<close>
        by (subst qs_challenge_loop.simps) (simp add: Let_def)
    qed
  qed
qed

text \<open>
  Claim C4 says that the challenge sampler returns exactly \<open>TAU = 39\<close> nonzero
  coefficients. \<open>_sample_challenge\<close> of \<open>quantum_signatures.py\<close> reads a stream of 32
  bytes and sets at most one coefficient per byte: for every seed and hash it returns at
  most 32 nonzero coefficients, never 39. (\<open>_sample_in_ball\<close> of \<open>signatures.py\<close> does
  return exactly \<open>tau\<close>: lemma \<open>sig_sample_in_ball_weight\<close> below.)
\<close>

theorem qs_challenge_fewer_than_tau:
  "nonzeros (qs_sample_challenge shake seed) \<le> 32 \<and> nonzeros (qs_sample_challenge shake seed) < TAU"
proof -
  have "nonzeros (qs_sample_challenge shake seed) \<le> length (digest shake seed 32)"
    unfolding qs_sample_challenge_def by (rule qs_challenge_loop_nonzeros) simp_all
  then show ?thesis
    by (simp add: digest_def TAU_def)
qed

text \<open>The first 32 bytes of SHAKE-256 of the empty input: 30 distinct values.\<close>

definition shake_empty_32 :: bytes where
  "shake_empty_32 =
     [0x46, 0xb9, 0xdd, 0x2b, 0x0b, 0xa8, 0x8d, 0x13, 0x23, 0x3b, 0x3f, 0xeb, 0x74, 0x3e, 0xeb, 0x24,
      0x3f, 0xcd, 0x52, 0xea, 0x62, 0xb8, 0x1b, 0x82, 0xb5, 0x0c, 0x27, 0x64, 0x6e, 0xd5, 0x76, 0x2f]"

lemma qs_challenge_empty_seed:
  "nonzeros (qs_sample_challenge (\<lambda>d i. shake_empty_32 ! i) []) = 30"
  by code_simp

theorem qs_challenge_fewer_than_tau_witness:
  "nonzeros (qs_sample_challenge (\<lambda>d i. shake_empty_32 ! i) []) = 30 \<and>
   nonzeros (qs_sample_challenge (\<lambda>d i. shake_empty_32 ! i) []) < TAU"
  using qs_challenge_fewer_than_tau [of "\<lambda>d i. shake_empty_32 ! i" "[]"] qs_challenge_empty_seed
  by simp

definition ternary :: "poly \<Rightarrow> bool" where
  "ternary p = (\<forall>c \<in> set p. c = - 1 \<or> c = 0 \<or> c = 1)"

lemma ternary_update: "ternary p \<Longrightarrow> v = - 1 \<or> v = 0 \<or> v = 1 \<Longrightarrow> ternary (p[i := v])"
  using set_update_subset_insert [of p i v] by (auto simp: ternary_def)

lemma ternary_nth: "ternary p \<Longrightarrow> i < length p \<Longrightarrow> p ! i = - 1 \<or> p ! i = 0 \<or> p ! i = 1"
  by (simp add: ternary_def)

lemma nonzeros_update:
  "i < length p \<Longrightarrow>
   nonzeros (p[i := v]) + (if p ! i \<noteq> 0 then 1 else 0) = nonzeros p + (if v \<noteq> 0 then 1 else 0)"
  unfolding nonzeros_def by (rule filter_update_count)

text \<open>One iteration of the loop of \<open>_sample_in_ball\<close>, at index \<open>i\<close>: one more nonzero.\<close>

lemma sig_ball_step_invariant:
  assumes "length poly = N" "i < N" "\<forall>k. i \<le> k \<and> k < N \<longrightarrow> poly ! k = 0" "ternary poly"
    and st: "sig_ball_step stream tau i (poly, pos) = (poly', pos')"
  shows "length poly' = N \<and> (\<forall>k. Suc i \<le> k \<and> k < N \<longrightarrow> poly' ! k = 0) \<and> ternary poly' \<and>
         nonzeros poly' = Suc (nonzeros poly) \<and> pos' = Suc pos"
proof -
  define j where "j = unat (stream ! pos) mod (i + 1)"
  define s :: int where "s = (if drop_bit (i - (N - tau)) (uint (stream ! 0)) AND 1 \<noteq> 0 then 1 else - 1)"
  define p1 where "p1 = poly[i := poly ! j]"
  have "j < Suc i" by (simp add: j_def)
  then have j: "j \<le> i" "j < N"
    using assms(2) by simp_all
  have s: "s = 1 \<or> s = - 1" "s \<noteq> 0" by (simp_all add: s_def)
  have eq: "poly' = p1[j := s]" "pos' = Suc pos"
    using st by (simp_all add: sig_ball_step_def Let_def j_def s_def p1_def)
  have pi: "poly ! i = 0" using assms(2,3) by simp
  have n1: "nonzeros p1 = nonzeros poly + (if poly ! j \<noteq> 0 then 1 else 0)"
    using nonzeros_update [of i poly "poly ! j"] assms(1,2) pi by (simp add: p1_def)
  have p1j: "p1 ! j = (if j = i then 0 else poly ! j)"
    using assms(1,2) j pi by (auto simp: p1_def nth_list_update)
  have n2: "nonzeros (p1[j := s]) + (if p1 ! j \<noteq> 0 then 1 else 0) = nonzeros p1 + 1"
    using nonzeros_update [of j p1 s] assms(1) j s by (simp add: p1_def)
  have cnt: "nonzeros poly' = Suc (nonzeros poly)"
    using n1 n2 p1j pi unfolding eq by (auto split: if_splits)
  have tail: "poly' ! k = 0" if "Suc i \<le> k" "k < N" for k
    using that assms(1,3) j unfolding eq p1_def by (simp add: nth_list_update)
  have "poly ! j = - 1 \<or> poly ! j = 0 \<or> poly ! j = 1"
    using ternary_nth [OF assms(4)] j assms(1) by simp
  then have "ternary poly'"
    unfolding eq p1_def using s assms(4) by (intro ternary_update) auto
  then show ?thesis
    using cnt tail eq assms(1) by (simp add: p1_def)
qed

lemma sig_ball_fold_invariant:
  assumes "tau \<le> N"
  shows "d \<le> tau \<Longrightarrow>
         (case fold (sig_ball_step stream tau) [N - tau..<N - tau + d] (replicate N 0, 8) of
            (poly, pos) \<Rightarrow> length poly = N \<and> (\<forall>k. N - tau + d \<le> k \<and> k < N \<longrightarrow> poly ! k = 0) \<and>
                           ternary poly \<and> nonzeros poly = d)"
proof (induction d)
  case 0
  then show ?case by (simp add: ternary_def)
next
  case (Suc d)
  obtain poly pos where f: "fold (sig_ball_step stream tau) [N - tau..<N - tau + d] (replicate N 0, 8) = (poly, pos)"
    by (cases "fold (sig_ball_step stream tau) [N - tau..<N - tau + d] (replicate N 0, 8)")
  obtain poly' pos' where st: "sig_ball_step stream tau (N - tau + d) (poly, pos) = (poly', pos')"
    by (cases "sig_ball_step stream tau (N - tau + d) (poly, pos)")
  have ih: "length poly = N" "\<forall>k. N - tau + d \<le> k \<and> k < N \<longrightarrow> poly ! k = 0" "ternary poly"
    "nonzeros poly = d"
    using Suc f by simp_all
  have i: "N - tau + d < N" using Suc.prems assms by simp
  from sig_ball_step_invariant [OF ih(1) i ih(2) ih(3) st]
  show ?case
    using f st ih(4) by simp
qed

text \<open>\<open>_sample_in_ball\<close> of \<open>signatures.py\<close>: exactly \<open>tau\<close> coefficients are nonzero, each 1 or -1.\<close>

lemma sig_sample_in_ball_weight:
  "tau \<le> N \<Longrightarrow>
   length (sig_sample_in_ball shake seed tau) = N \<and> ternary (sig_sample_in_ball shake seed tau) \<and>
   nonzeros (sig_sample_in_ball shake seed tau) = tau"
  using sig_ball_fold_invariant [of tau tau "digest shake seed (8 + tau)"]
  by (simp add: sig_sample_in_ball_def Let_def case_prod_beta)

section \<open>Verification (signatures.py and quantum_signatures.py)\<close>

text \<open>\<open>v.to_bytes(n, 'little', signed=True)\<close>, for \<open>n \<ge> 1\<close>: two's complement.\<close>

definition to_bytes_signed :: "nat \<Rightarrow> int \<Rightarrow> exn + bytes" where
  "to_bytes_signed n v =
     (if - (2 ^ (8 * n - 1)) \<le> v \<and> v < 2 ^ (8 * n - 1) then Inr (le_bytes n v)
      else Inl OverflowError)"

definition pack_coeffs_signed :: "nat \<Rightarrow> int list \<Rightarrow> exn + bytes" where
  "pack_coeffs_signed w cs = bind (mapM (to_bytes_signed w) cs) (\<lambda>bss. Inr (concat bss))"

definition pack_polys_signed :: "nat \<Rightarrow> poly list \<Rightarrow> exn + bytes" where
  "pack_polys_signed w ps = bind (mapM (pack_coeffs_signed w) ps) (\<lambda>bss. Inr (concat bss))"

text \<open>\<open>_scalar_vector_mul\<close>, \<open>_infinity_norm\<close> (signatures.py) and \<open>_check_bounds\<close>
  (quantum_signatures.py), which returns True as soon as a coefficient reaches the bound.\<close>

definition scalar_vector_mul :: "int \<Rightarrow> poly \<Rightarrow> poly list \<Rightarrow> exn + poly list" where
  "scalar_vector_mul q c v = mapM (\<lambda>poly. poly_mul q c poly) v"

definition infinity_norm :: "poly list \<Rightarrow> int" where
  "infinity_norm v =
     fold (\<lambda>poly max_norm.
        fold (\<lambda>coeff max_norm. let norm = \<bar>coeff\<bar> in if norm > max_norm then norm else max_norm)
          poly max_norm) v 0"

definition check_bounds :: "poly list \<Rightarrow> int \<Rightarrow> bool" where
  "check_bounds v bound = list_ex (\<lambda>poly. list_ex (\<lambda>coeff. \<bar>coeff\<bar> \<ge> bound) poly) v"

text \<open>\<open>_pack_w1\<close>: 2 bytes per coefficient in signatures.py, 1 byte in quantum_signatures.py.\<close>

definition pack_w1 :: "nat \<Rightarrow> poly list \<Rightarrow> exn + bytes" where
  "pack_w1 w w1 = pack_polys w w1"

subsection \<open>signatures.py\<close>

definition sig_expand_A :: "xof \<Rightarrow> bytes \<Rightarrow> poly list list" where
  "sig_expand_A shake rho =
     map (\<lambda>i. map (\<lambda>j. sig_sample_uniform_poly shake (rho @ [of_nat j, of_nat i]))
                [0..<Sig_L]) [0..<Sig_K]"

definition sig_unpack_public_key :: "bytes \<Rightarrow> bytes \<times> poly list" where
  "sig_unpack_public_key pk = (take 32 pk, fst (unpack_polys from_bytes 4 Sig_K pk 32))"

definition sig_unpack_signature :: "bytes \<Rightarrow> bytes \<times> poly list \<times> int list" where
  "sig_unpack_signature sig =
     (let c_tilde = take 32 sig;
          (z, offset) = unpack_polys from_bytes_signed 4 Sig_L sig 32;
          hint_size = Sig_K * N;
          hint_bytes = slice sig offset (offset + (hint_size + 7) div 8);
          h = map (\<lambda>i. if i div 8 < length hint_bytes
                        then drop_bit (i mod 8) (uint (hint_bytes ! (i div 8))) AND 1 else 0)
                [0..<hint_size]
      in (c_tilde, z, h))"

text \<open>\<open>_use_hint\<close>: \<open>hint_idx\<close> counts the coefficients, so it is \<open>i * N + j\<close> at \<open>w[i][j]\<close>.\<close>

definition use_hint :: "int list \<Rightarrow> poly list \<Rightarrow> exn + poly list" where
  "use_hint h w =
     mapM (\<lambda>i. mapM (\<lambda>j. bind (index (w ! i) j) (\<lambda>wij.
                   let hint_idx = i * N + j
                   in if hint_idx < length h \<and> h ! hint_idx \<noteq> 0
                      then Inr (wij div (2 * GAMMA2) + 1)
                      else Inr (wij div (2 * GAMMA2)))) [0..<N]) [0..<length w]"

text \<open>The body of the \<open>try\<close> block of \<open>verify\<close>, and \<open>verify\<close> with its
  \<open>except Exception: return False\<close>.\<close>

definition sig_verify_body :: "xof \<Rightarrow> xof \<Rightarrow> bytes \<Rightarrow> bytes \<Rightarrow> bytes \<Rightarrow> exn + bool" where
  "sig_verify_body shake sha3 message signature pk =
     (let (rho, t) = sig_unpack_public_key pk;
          (c_tilde, z, h) = sig_unpack_signature signature
      in if infinity_norm z \<ge> GAMMA1 - BETA then Inr False
         else
           let c = sig_sample_in_ball shake c_tilde TAU;
               A = sig_expand_A shake rho
           in bind (matrix_vector_mul Sig_Q A z) (\<lambda>Az.
              bind (scalar_vector_mul Sig_Q c t) (\<lambda>ct.
              bind (vector_sub Sig_Q Az ct) (\<lambda>w_prime.
              bind (use_hint h w_prime) (\<lambda>w1.
              let mu = sha3_256 sha3 message
              in bind (pack_w1 2 w1) (\<lambda>packed.
                 let c_tilde_prime = sha3_256 sha3 (mu @ packed)
                 in Inr (c_tilde = c_tilde_prime)))))))"

definition sig_verify :: "xof \<Rightarrow> xof \<Rightarrow> bytes \<Rightarrow> bytes \<Rightarrow> bytes \<Rightarrow> bool" where
  "sig_verify shake sha3 message signature pk =
     (case sig_verify_body shake sha3 message signature pk of Inl e \<Rightarrow> False | Inr b \<Rightarrow> b)"

subsection \<open>quantum_signatures.py\<close>

definition qs_expand_matrix :: "xof \<Rightarrow> bytes \<Rightarrow> poly list list" where
  "qs_expand_matrix shake rho =
     map (\<lambda>i. map (\<lambda>j. sample_uniform_poly Sig_Q shake (rho @ [of_nat j, of_nat i]))
                [0..<Sig_L]) [0..<Sig_K]"

definition qs_unpack_public_key :: "bytes \<Rightarrow> bytes \<times> poly list" where
  "qs_unpack_public_key pk = (take 32 pk, fst (unpack_polys from_bytes 3 Sig_K pk 32))"

definition qs_pack_signature :: "poly \<Rightarrow> poly list \<Rightarrow> exn + bytes" where
  "qs_pack_signature c z =
     bind (pack_coeffs_signed 1 c) (\<lambda>data. bind (pack_polys_signed 3 z) (\<lambda>data'. Inr (data @ data')))"

definition qs_unpack_signature :: "bytes \<Rightarrow> poly \<times> poly list" where
  "qs_unpack_signature sig =
     (let (c, offset) = unpack_coeffs from_bytes_signed 1 N sig 0;
          (z, offset') = unpack_polys from_bytes_signed 3 Sig_L sig N
      in (c, z))"

definition decompose_high :: "poly \<Rightarrow> poly" where
  "decompose_high poly = map (\<lambda>coeff. (coeff + GAMMA2) div (2 * GAMMA2)) poly"

definition qs_high_bits :: "poly list \<Rightarrow> poly list" where
  "qs_high_bits v = map decompose_high v"

definition qs_verify_body :: "xof \<Rightarrow> bytes \<Rightarrow> bytes \<Rightarrow> bytes \<Rightarrow> exn + bool" where
  "qs_verify_body shake message signature public_key =
     (let (rho, t) = qs_unpack_public_key public_key;
          (c, z) = qs_unpack_signature signature
      in if \<not> check_bounds z (GAMMA1 - BETA) then Inr False
         else
           let A = qs_expand_matrix shake rho;
               mu = digest shake (message @ public_key) 64
           in bind (matrix_vector_mul Sig_Q A z) (\<lambda>Az.
              bind (scalar_vector_mul Sig_Q c t) (\<lambda>ct.
              bind (vector_sub Sig_Q Az ct) (\<lambda>w_prime.
              let w1_prime = qs_high_bits w_prime
              in bind (pack_w1 1 w1_prime) (\<lambda>packed.
                 let c_prime = qs_sample_challenge shake (mu @ packed)
                 in Inr (c = c_prime))))))"

definition qs_verify :: "xof \<Rightarrow> bytes \<Rightarrow> bytes \<Rightarrow> bytes \<Rightarrow> bool" where
  "qs_verify shake message signature public_key =
     (case qs_verify_body shake message signature public_key of Inl e \<Rightarrow> False | Inr b \<Rightarrow> b)"

text \<open>A response vector whose first coefficient is \<open>Q\<close> itself and whose others are 0.\<close>

definition z_out_of_bound :: "poly list" where
  "z_out_of_bound = (Sig_Q # replicate (N - 1) 0) # replicate (Sig_L - 1) (replicate N 0)"

section \<open>Facts about verification\<close>

subsection \<open>signed coefficients on the wire\<close>

lemma from_bytes_signed_le_bytes:
  assumes "0 < n" "- (2 ^ (8 * n - 1)) \<le> v" "v < 2 ^ (8 * n - 1)"
  shows "from_bytes_signed (le_bytes n v) = v"
proof -
  have p: "(256::int) ^ n = 2 ^ (8 * n)"
    by (simp add: power_mult)
  have h: "(2::int) ^ (8 * n) = 2 * 2 ^ (8 * n - 1)"
    using assms(1) by (simp flip: power_Suc)
  show ?thesis
  proof (cases "0 \<le> v")
    case True
    then have "v mod 256 ^ n = v"
      using assms(3) h p by simp
    then show ?thesis
      using assms True by (simp add: from_bytes_signed_def from_bytes_le_bytes Let_def)
  next
    case False
    then have b: "0 \<le> v + 256 ^ n" "v + 256 ^ n < 256 ^ n"
      using assms(2) h p by simp_all
    have "v mod 256 ^ n = (v + 256 ^ n) mod 256 ^ n"
      by simp
    also have "\<dots> = v + 256 ^ n"
      using b by (rule mod_pos_pos_trivial)
    finally have "v mod 256 ^ n = v + 2 ^ (8 * n)"
      using p by simp
    then show ?thesis
      using assms False h by (simp add: from_bytes_signed_def from_bytes_le_bytes Let_def)
  qed
qed

lemma from_bytes_signed_Nil [simp]: "from_bytes_signed [] = 0"
  by (simp add: from_bytes_signed_def)

lemma unpack_coeffs_roundtrip_gen:
  "length cs = n \<Longrightarrow> \<forall>c \<in> set cs. length (enc c) = w \<and> conv (enc c) = c \<Longrightarrow>
   unpack_coeffs conv w n (pre @ concat (map enc cs) @ post) (length pre)
     = (cs, length pre + w * n)"
proof (induction cs arbitrary: n pre)
  case Nil
  then show ?case by auto
next
  case (Cons c cs)
  then obtain n' where n: "n = Suc n'" "length cs = n'"
    by (cases n) auto
  have sl: "slice (pre @ concat (map enc (c # cs)) @ post) (length pre) (length pre + w) = enc c"
    using Cons.prems by (simp add: slice_def)
  have ih: "unpack_coeffs conv w n' ((pre @ enc c) @ concat (map enc cs) @ post)
              (length (pre @ enc c)) = (cs, length (pre @ enc c) + w * n')"
    using Cons.IH [OF n(2), of "pre @ enc c"] Cons.prems by simp
  show ?case
    using ih Cons.prems sl unfolding n(1)
    by simp
qed

lemma length_concat_enc:
  "\<forall>c \<in> set cs. length (enc c) = w \<Longrightarrow> length (concat (map enc cs)) = w * length cs"
  by (induction cs) simp_all

lemma unpack_polys_roundtrip_gen:
  "length ps = k \<Longrightarrow>
   \<forall>p \<in> set ps. length p = N \<and> (\<forall>c \<in> set p. length (enc c) = w \<and> conv (enc c) = c) \<Longrightarrow>
   unpack_polys conv w k (pre @ concat (map (\<lambda>p. concat (map enc p)) ps) @ post) (length pre)
     = (ps, length pre + w * N * k)"
proof (induction ps arbitrary: k pre)
  case Nil
  then show ?case by auto
next
  case (Cons p ps)
  then obtain k' where k: "k = Suc k'" "length ps = k'"
    by (cases k) auto
  let ?rest = "concat (map (\<lambda>p. concat (map enc p)) ps) @ post"
  have hd: "unpack_coeffs conv w N (pre @ concat (map enc p) @ ?rest) (length pre)
              = (p, length pre + w * N)"
    using unpack_coeffs_roundtrip_gen [of p N enc w conv pre ?rest] Cons.prems by simp
  have len: "length (pre @ concat (map enc p)) = length pre + w * N"
    using Cons.prems length_concat_enc [of p enc w] by simp
  have ih: "unpack_polys conv w k' ((pre @ concat (map enc p)) @ ?rest)
              (length (pre @ concat (map enc p)))
            = (ps, length (pre @ concat (map enc p)) + w * N * k')"
    using Cons.IH [OF k(2), of "pre @ concat (map enc p)"] Cons.prems by simp
  show ?case
    using hd ih unfolding k(1) len
    by (simp add: algebra_simps)
qed

lemma pack_coeffs_signed_Inr:
  "\<forall>c \<in> set cs. - (2 ^ (8 * w - 1)) \<le> c \<and> c < 2 ^ (8 * w - 1) \<Longrightarrow>
   pack_coeffs_signed w cs = Inr (concat (map (le_bytes w) cs))"
  by (simp add: pack_coeffs_signed_def to_bytes_signed_def mapM_Inr_map [where g = "le_bytes w"])

lemma pack_polys_signed_Inr:
  "\<forall>p \<in> set ps. \<forall>c \<in> set p. - (2 ^ (8 * w - 1)) \<le> c \<and> c < 2 ^ (8 * w - 1) \<Longrightarrow>
   pack_polys_signed w ps = Inr (concat (map (\<lambda>p. concat (map (le_bytes w) p)) ps))"
  by (simp add: pack_polys_signed_def pack_coeffs_signed_Inr
        mapM_Inr_map [where g = "\<lambda>p. concat (map (le_bytes w) p)"])

lemma unpack_polys_all_missing:
  assumes "length bs \<le> off" "conv [] = 0"
  shows "fst (unpack_polys conv w k bs off) = replicate k (replicate N 0)"
proof (rule nth_equalityI)
  show "length (fst (unpack_polys conv w k bs off)) = length (replicate k (replicate N (0::int)))"
    by (simp add: unpack_polys_shape)
next
  fix i assume "i < length (fst (unpack_polys conv w k bs off))"
  then have i: "i < k" by (simp add: unpack_polys_shape)
  then have len: "length (fst (unpack_polys conv w k bs off) ! i) = N"
    using unpack_polys_shape [of conv w k bs off] by (simp add: all_set_conv_all_nth)
  have "fst (unpack_polys conv w k bs off) ! i = replicate N 0"
  proof (rule nth_equalityI)
    show "length (fst (unpack_polys conv w k bs off) ! i) = length (replicate N (0::int))"
      using len by simp
  next
    fix j assume "j < length (fst (unpack_polys conv w k bs off) ! i)"
    then have "j < N" using len by simp
    then show "fst (unpack_polys conv w k bs off) ! i ! j = replicate N 0 ! j"
      using unpack_polys_missing [of i k j bs off w conv] i assms by simp
  qed
  then show "fst (unpack_polys conv w k bs off) ! i = replicate k (replicate N 0) ! i"
    using i by simp
qed

subsection \<open>products with multiples of the modulus\<close>

lemma negacyclic_dvd_right:
  assumes "\<forall>j<N. q dvd b ! j"
  shows "negacyclic_convolution q a b = replicate N 0"
proof -
  have "q dvd negacyclic_term a b k i j" if "j < N" for k i j
    using that assms by (simp add: negacyclic_term_def)
  then have "q dvd (\<Sum>i<N. \<Sum>j<N. negacyclic_term a b k i j)" for k
    by (intro dvd_sum) simp
  then have "negacyclic_coeff q a b k = 0" for k
    by (simp add: negacyclic_coeff_def)
  then show ?thesis
    by (intro nth_equalityI) (simp_all add: negacyclic_convolution_def)
qed

lemma poly_mul_dvd_right:
  "N \<le> length a \<Longrightarrow> N \<le> length b \<Longrightarrow> \<forall>j<N. q dvd b ! j \<Longrightarrow>
   poly_mul q a b = Inr (replicate N 0)"
  by (simp add: poly_mul_def mul_loop_convolution negacyclic_dvd_right)

lemma matrix_vector_mul_dvd:
  assumes "\<forall>row \<in> set A. length v \<le> length row \<and> (\<forall>p \<in> set row. N \<le> length p)"
    "\<forall>p \<in> set v. N \<le> length p \<and> (\<forall>j<N. q dvd p ! j)"
  shows "matrix_vector_mul q A v = Inr (replicate (length A) (replicate N 0))"
proof -
  have row: "foldM (\<lambda>j poly_sum. bind (index (A ! i) j) (\<lambda>Aij. bind (poly_mul q Aij (v ! j))
                   (\<lambda>poly_prod. poly_add q poly_sum poly_prod)))
             [0..<length v] (replicate N 0) = Inr (replicate N 0)" if "i < length A" for i
  proof -
    have "\<exists>r. foldM (\<lambda>j poly_sum. bind (index (A ! i) j) (\<lambda>Aij. bind (poly_mul q Aij (v ! j))
                   (\<lambda>poly_prod. poly_add q poly_sum poly_prod)))
             [0..<length v] (replicate N 0) = Inr r \<and> r = replicate N 0"
    proof (rule foldM_invariant [where P = "\<lambda>r. r = replicate N 0"])
      fix j and s :: poly assume j: "j \<in> set [0..<length v]" and s: "s = replicate N 0"
      have Ai: "A ! i \<in> set A" using that by simp
      then have "j < length (A ! i)" "N \<le> length (A ! i ! j)"
        using assms(1) j by auto
      moreover have "N \<le> length (v ! j)" "\<forall>k<N. q dvd v ! j ! k"
        using assms(2) j by auto
      ultimately show "\<exists>s'. bind (index (A ! i) j) (\<lambda>Aij. bind (poly_mul q Aij (v ! j))
                   (\<lambda>poly_prod. poly_add q s poly_prod)) = Inr s' \<and> s' = replicate N 0"
        using s by (simp add: poly_mul_dvd_right)
    qed simp
    then show ?thesis by simp
  qed
  have "matrix_vector_mul q A v = Inr (map (\<lambda>i. replicate N 0) [0..<length A])"
    unfolding matrix_vector_mul_def by (rule mapM_Inr_map) (simp add: row)
  then show ?thesis by (simp add: map_replicate_const)
qed

lemma scalar_vector_mul_zero:
  "N \<le> length c \<Longrightarrow> scalar_vector_mul q c (replicate k (replicate N 0)) = Inr (replicate k (replicate N 0))"
proof -
  assume c: "N \<le> length c"
  have "mapM (poly_mul q c) (replicate k (replicate N 0))
               = Inr (map (\<lambda>p. replicate N (0::int)) (replicate k (replicate N (0::int))))"
    using mapM_Inr_map [of "replicate k (replicate N (0::int))" "poly_mul q c" "\<lambda>p. replicate N (0::int)"]
    by (simp add: poly_mul_zero_right [OF c])
  then show ?thesis by (simp add: scalar_vector_mul_def)
qed

lemma poly_sub_zeros [simp]:
  "poly_sub q (replicate N 0) (replicate N 0) = Inr (replicate N 0)"
  by (auto simp: poly_sub_def intro!: nth_equalityI)

lemma vector_sub_zeros:
  "vector_sub q (replicate k (replicate N 0)) (replicate k (replicate N 0)) = Inr (replicate k (replicate N 0))"
proof -
  have "vector_sub q (replicate k (replicate N 0)) (replicate k (replicate N 0))
          = Inr (map (\<lambda>i. replicate N 0) [0..<k])"
    unfolding vector_sub_def length_replicate
    by (rule mapM_Inr_map) simp
  then show ?thesis by (simp add: map_replicate_const)
qed

lemma le_bytes_zero [simp]: "le_bytes w 0 = replicate w 0"
  by (induction w) simp_all

lemma concat_replicate_replicate: "concat (replicate n (replicate w x)) = replicate (n * w) x"
  by (induction n) (simp_all add: replicate_add)

lemma pack_w1_zeros:
  "pack_w1 w (replicate k (replicate N 0)) = Inr (replicate (k * (N * w)) 0)"
proof -
  have "pack_polys w (replicate k (replicate N 0))
          = Inr (concat (map (\<lambda>p. concat (map (le_bytes w) p)) (replicate k (replicate N 0))))"
    by (rule pack_polys_Inr) simp
  then show ?thesis
    by (simp add: pack_w1_def concat_replicate_replicate)
qed

subsection \<open>shapes of the products\<close>

lemma matrix_vector_mul_canonical:
  assumes "\<forall>row \<in> set A. length v \<le> length row \<and> (\<forall>p \<in> set row. N \<le> length p)"
    "\<forall>p \<in> set v. N \<le> length p" "0 < q"
  shows "\<exists>r. matrix_vector_mul q A v = Inr r \<and> length r = length A \<and> (\<forall>p \<in> set r. canonical q p)"
proof -
  have "\<exists>r. matrix_vector_mul q A v = Inr r \<and> length r = length [0..<length A] \<and> (\<forall>p \<in> set r. canonical q p)"
    unfolding matrix_vector_mul_def
  proof (rule mapM_invariant)
    fix i assume "i \<in> set [0..<length A]"
    then have Ai: "A ! i \<in> set A" by simp
    show "\<exists>y. foldM (\<lambda>j poly_sum. bind (index (A ! i) j) (\<lambda>Aij. bind (poly_mul q Aij (v ! j))
                   (\<lambda>poly_prod. poly_add q poly_sum poly_prod)))
             [0..<length v] (replicate N 0) = Inr y \<and> canonical q y"
    proof (rule foldM_invariant [where P = "canonical q"])
      show "canonical q (replicate N 0)" using assms(3) by (rule canonical_zero)
    next
      fix j s assume j: "j \<in> set [0..<length v]" and s: "canonical q s"
      have "j < length (A ! i)" "N \<le> length (A ! i ! j)" "N \<le> length (v ! j)"
        using assms(1,2) Ai j by auto
      then obtain r where r: "poly_mul q (A ! i ! j) (v ! j) = Inr r" "canonical q r"
        using poly_mul_canonical assms(3) by blast
      then show "\<exists>s'. bind (index (A ! i) j) (\<lambda>Aij. bind (poly_mul q Aij (v ! j))
                   (\<lambda>poly_prod. poly_add q s poly_prod)) = Inr s' \<and> canonical q s'"
        using \<open>j < length (A ! i)\<close> poly_add_canonical [of s r q] s assms(3)
        by (simp add: canonical_length)
    qed
  qed
  then show ?thesis by simp
qed



subsection \<open>verify of signatures.py on a 32-byte signature and an empty key\<close>

lemma length_digest [simp]: "length (digest h d n) = n"
  by (simp add: digest_def)

lemma length_sha3_256 [simp]: "length (sha3_256 h d) = 32"
  by (simp add: sha3_256_def)

lemma length_sig_sample_uniform_poly [simp]: "length (sig_sample_uniform_poly shake seed) = N"
  by (simp add: sig_sample_uniform_poly_def Let_def sig_uniform_fold)

lemma sig_expand_A_shape:
  "length (sig_expand_A shake rho) = Sig_K \<and>
   (\<forall>row \<in> set (sig_expand_A shake rho). length row = Sig_L \<and> (\<forall>p \<in> set row. N \<le> length p))"
  by (auto simp: sig_expand_A_def)






lemma sig_verify_rejects_out_of_bound:
  "infinity_norm (fst (snd (sig_unpack_signature signature))) \<ge> GAMMA1 - BETA \<Longrightarrow>
   sig_verify shake sha3 message signature pk = False"
  by (simp add: sig_verify_def sig_verify_body_def case_prod_beta Let_def)

subsection \<open>the challenge of quantum_signatures.py\<close>

lemma qs_challenge_loop_shape:
  "length (qs_challenge_loop stream i positions poly) = length poly \<and>
   (ternary poly \<longrightarrow> ternary (qs_challenge_loop stream i positions poly))"
proof (induction stream i positions poly rule: qs_challenge_loop.induct)
  case (1 stream i positions poly)
  show ?case
  proof (cases "card positions < TAU \<and> i < length stream")
    case False
    then show ?thesis
      by (subst (1 2) qs_challenge_loop.simps) auto
  next
    case True
    let ?pos = "unat (stream ! i) mod N"
    let ?v = "if drop_bit 7 (uint (stream ! i)) \<noteq> 0 then 1 else - 1 :: int"
    show ?thesis
    proof (cases "?pos \<in> positions")
      case in_pos: True
      show ?thesis
        using "1.IH"(2) [of ?pos] True in_pos
        by (subst (1 2) qs_challenge_loop.simps) (simp add: Let_def)
    next
      case not_in: False
      have "ternary poly \<Longrightarrow> ternary (poly[?pos := ?v])"
        by (rule ternary_update) auto
      then show ?thesis
        using "1.IH"(1) [of ?pos] True not_in
        by (subst (1 2) qs_challenge_loop.simps) (simp add: Let_def)
    qed
  qed
qed

lemma qs_sample_challenge_shape:
  "length (qs_sample_challenge shake seed) = N \<and> ternary (qs_sample_challenge shake seed)"
  using qs_challenge_loop_shape [of "digest shake seed 32" 0 "{}" "replicate N 0"]
  by (simp add: qs_sample_challenge_def ternary_def)

subsection \<open>a forged signature for verify of quantum_signatures.py\<close>

lemma length_z_out_of_bound: "length z_out_of_bound = Sig_L"
  by (simp add: z_out_of_bound_def Sig_L_def)

lemma z_out_of_bound_polys:
  "p \<in> set z_out_of_bound \<Longrightarrow> length p = N \<and> (\<forall>j<N. Sig_Q dvd p ! j) \<and>
     (\<forall>c \<in> set p. - (2 ^ (8 * 3 - 1)) \<le> c \<and> c < 2 ^ (8 * 3 - 1))"
  by (auto simp: z_out_of_bound_def N_def Sig_Q_def nth_Cons split: nat.splits)

lemma check_bounds_z_out_of_bound: "check_bounds z_out_of_bound (GAMMA1 - BETA)"
  by (simp add: check_bounds_def z_out_of_bound_def Sig_Q_def GAMMA1_def BETA_def)

lemma norm_fold_zeros:
  "0 \<le> m \<Longrightarrow> \<forall>c \<in> set p. c = 0 \<Longrightarrow>
   fold (\<lambda>coeff max_norm. let norm = \<bar>coeff\<bar> in if norm > max_norm then norm else max_norm) p m = m"
  for m :: int
  by (induction p arbitrary: m) (simp_all add: Let_def)

lemma infinity_norm_Cons:
  "infinity_norm (p # ps) =
     fold (\<lambda>poly max_norm.
        fold (\<lambda>coeff max_norm. let norm = \<bar>coeff\<bar> in if norm > max_norm then norm else max_norm)
          poly max_norm) ps
       (fold (\<lambda>coeff max_norm. let norm = \<bar>coeff\<bar> in if norm > max_norm then norm else max_norm) p 0)"
  by (simp add: infinity_norm_def)

lemma infinity_norm_z_out_of_bound: "infinity_norm z_out_of_bound = Sig_Q"
proof -
  have rest: "fold (\<lambda>poly max_norm.
        fold (\<lambda>coeff max_norm. let norm = \<bar>coeff\<bar> in if norm > max_norm then norm else max_norm)
          poly max_norm) (replicate k (replicate N 0)) Sig_Q = Sig_Q" for k
  proof (rule fold_invariant [where P = "\<lambda>m. m = Sig_Q"])
    fix x :: poly and s :: int assume "x \<in> set (replicate k (replicate N 0))" "s = Sig_Q"
    then have "\<forall>c \<in> set x. c = 0" "0 \<le> s" by (auto simp: Sig_Q_def)
    then show "fold (\<lambda>coeff max_norm. let norm = \<bar>coeff\<bar> in if norm > max_norm then norm else max_norm)
            x s = Sig_Q"
      using norm_fold_zeros [of s x] \<open>s = Sig_Q\<close> by simp
  qed simp
  have first: "fold (\<lambda>coeff max_norm. let norm = \<bar>coeff\<bar> in if norm > max_norm then norm else max_norm)
          (Sig_Q # replicate (N - 1) 0) 0 = Sig_Q"
    using norm_fold_zeros [of Sig_Q "replicate (N - 1) 0"]
    by (simp add: Sig_Q_def Let_def del: fold_replicate)
  show ?thesis
    unfolding z_out_of_bound_def infinity_norm_Cons first by (rule rest)
qed

lemma qs_expand_matrix_shape:
  "length (qs_expand_matrix shake rho) = Sig_K \<and>
   (\<forall>row \<in> set (qs_expand_matrix shake rho). length row = Sig_L \<and> (\<forall>p \<in> set row. N \<le> length p))"
  by (auto simp: qs_expand_matrix_def)

lemma qs_unpack_public_key_empty:
  "qs_unpack_public_key [] = ([], replicate Sig_K (replicate N 0))"
  by (simp add: qs_unpack_public_key_def unpack_polys_all_missing)

lemma qs_high_bits_zeros:
  "qs_high_bits (replicate k (replicate N 0)) = replicate k (replicate N 0)"
  by (simp add: qs_high_bits_def decompose_high_def GAMMA2_def Sig_Q_def)

lemma qs_unpack_pack_signature:
  assumes "length c = N" "ternary c" "length z = Sig_L"
    "\<forall>p \<in> set z. length p = N \<and> (\<forall>x \<in> set p. - (2 ^ (8 * 3 - 1)) \<le> x \<and> x < 2 ^ (8 * 3 - 1))"
  shows "\<exists>sig. qs_pack_signature c z = Inr sig \<and> qs_unpack_signature sig = (c, z)"
proof -
  let ?dc = "concat (map (le_bytes 1) c)"
  let ?dz = "concat (map (\<lambda>p. concat (map (le_bytes 3) p)) z)"
  have crange: "\<forall>x \<in> set c. - (2 ^ (8 * 1 - 1)) \<le> x \<and> x < 2 ^ (8 * 1 - 1)"
    using assms(2) by (auto simp: ternary_def)
  have pc: "pack_coeffs_signed 1 c = Inr ?dc"
    using crange by (rule pack_coeffs_signed_Inr)
  have pz: "pack_polys_signed 3 z = Inr ?dz"
    using assms(4) by (intro pack_polys_signed_Inr) blast
  have lc: "length ?dc = N"
    using assms(1) by simp
  have enc1: "\<forall>x \<in> set c. length (le_bytes 1 x) = 1 \<and> from_bytes_signed (le_bytes 1 x) = x"
    by (intro ballI conjI from_bytes_signed_le_bytes length_le_bytes) (use crange in auto)
  have enc3: "\<forall>p \<in> set z. length p = N \<and>
                (\<forall>x \<in> set p. length (le_bytes 3 x) = 3 \<and> from_bytes_signed (le_bytes 3 x) = x)"
    by (intro ballI conjI from_bytes_signed_le_bytes length_le_bytes) (use assms(4) in auto)
  have "unpack_coeffs from_bytes_signed 1 N ([] @ ?dc @ ?dz) (length ([] :: bytes))
          = (c, length ([] :: bytes) + 1 * N)"
    by (rule unpack_coeffs_roundtrip_gen [OF assms(1) enc1])
  then have uc: "unpack_coeffs from_bytes_signed 1 N (?dc @ ?dz) 0 = (c, N)"
    by simp
  have "unpack_polys from_bytes_signed 3 Sig_L (?dc @ ?dz @ []) (length ?dc)
          = (z, length ?dc + 3 * N * Sig_L)"
    by (rule unpack_polys_roundtrip_gen [OF assms(3) enc3])
  then have uz: "unpack_polys from_bytes_signed 3 Sig_L (?dc @ ?dz) N = (z, N + 3 * N * Sig_L)"
    using lc by simp
  show ?thesis
    unfolding qs_pack_signature_def pc pz bind_Inr qs_unpack_signature_def
    by (simp add: uc uz del: One_nat_def)
qed

text \<open>
  Claim C3 says that \<open>verify\<close> returns false whenever the unpacked response vector
  \<open>z\<close> has infinity norm \<open>\<ge> GAMMA1 - BETA\<close>. \<open>verify\<close> of \<open>signatures.py\<close> does (lemma
  \<open>sig_verify_rejects_out_of_bound\<close>). \<open>verify\<close> of \<open>quantum_signatures.py\<close> tests
  \<open>not _check_bounds(z, ...)\<close>, where \<open>_check_bounds\<close> is true when a coefficient is out of
  bound: it returns false for every \<open>z\<close> within the bound and goes on for every \<open>z\<close>
  outside it. For every hash function and message, the signature packed from the challenge
  of the zero commitment and the response \<open>z_out_of_bound\<close>, of norm \<open>Q\<close>, is accepted
  under the empty public key.
\<close>

theorem qs_verify_accepts_out_of_bound:
  "\<exists>sig. qs_pack_signature
             (qs_sample_challenge shake (digest shake message 64 @ replicate 1024 0))
             z_out_of_bound = Inr sig \<and>
         snd (qs_unpack_signature sig) = z_out_of_bound \<and>
         GAMMA1 - BETA \<le> infinity_norm z_out_of_bound \<and>
         qs_verify shake message sig [] = True"
proof -
  let ?c = "qs_sample_challenge shake (digest shake message 64 @ replicate 1024 0)"
  let ?ZK = "replicate Sig_K (replicate N (0::int))"
  have c: "length ?c = N" "ternary ?c"
    using qs_sample_challenge_shape by blast+
  obtain sig where sig: "qs_pack_signature ?c z_out_of_bound = Inr sig"
    "qs_unpack_signature sig = (?c, z_out_of_bound)"
    using qs_unpack_pack_signature [OF c length_z_out_of_bound] z_out_of_bound_polys by blast
  have Az: "matrix_vector_mul Sig_Q (qs_expand_matrix shake []) z_out_of_bound = Inr ?ZK"
    using qs_expand_matrix_shape [of shake "[]"] z_out_of_bound_polys length_z_out_of_bound
      matrix_vector_mul_dvd [of "qs_expand_matrix shake []" z_out_of_bound Sig_Q]
    by simp
  have ct: "scalar_vector_mul Sig_Q ?c ?ZK = Inr ?ZK"
    using c(1) by (intro scalar_vector_mul_zero) simp
  have pk: "pack_w1 (Suc 0) ?ZK = Inr (replicate 1024 0)"
    using pack_w1_zeros [of "Suc 0" Sig_K] by (simp add: Sig_K_def N_def)
  have "qs_verify_body shake message sig [] = Inr True"
    unfolding qs_verify_body_def
    by (simp add: qs_unpack_public_key_empty sig(2) check_bounds_z_out_of_bound Az ct
        vector_sub_zeros qs_high_bits_zeros pk Let_def)
  then have "qs_verify shake message sig [] = True"
    by (simp add: qs_verify_def)
  moreover have "GAMMA1 - BETA \<le> infinity_norm z_out_of_bound"
    by (simp add: infinity_norm_z_out_of_bound Sig_Q_def GAMMA1_def BETA_def)
  ultimately show ?thesis
    using sig by auto
qed

theorem qs_verify_accepts_out_of_bound_witness:
  "\<exists>sig. qs_pack_signature
             (qs_sample_challenge (\<lambda>d i. of_nat (length d + i)) (digest (\<lambda>d i. of_nat (length d + i)) [] 64 @ replicate 1024 0))
             z_out_of_bound = Inr sig \<and>
         snd (qs_unpack_signature sig) = z_out_of_bound \<and>
         GAMMA1 - BETA \<le> infinity_norm z_out_of_bound \<and>
         qs_verify (\<lambda>d i. of_nat (length d + i)) [] sig [] = True"
  by (rule qs_verify_accepts_out_of_bound)

subsection \<open>verify never raises\<close>

lemma high_range:
  "0 \<le> x \<Longrightarrow> x < Sig_Q \<Longrightarrow>
   0 \<le> x div (2 * GAMMA2) \<and> x div (2 * GAMMA2) + 1 < 256 \<and>
   0 \<le> (x + GAMMA2) div (2 * GAMMA2) \<and> (x + GAMMA2) div (2 * GAMMA2) < 256"
proof -
  assume x: "0 \<le> x" "x < Sig_Q"
  have g: "2 * GAMMA2 = 190464" "GAMMA2 = 95232"
    by (simp_all add: GAMMA2_def Sig_Q_def)
  have "x div 190464 \<le> 8380416 div 190464"
    using x by (intro zdiv_mono1) (simp_all add: Sig_Q_def)
  moreover have "(x + 95232) div 190464 \<le> (8380416 + 95232) div 190464"
    using x by (intro zdiv_mono1) (simp_all add: Sig_Q_def)
  moreover have "0 \<le> x div 190464" "0 \<le> (x + 95232) div 190464"
    using x by (simp_all add: pos_imp_zdiv_nonneg_iff)
  ultimately show ?thesis
    unfolding g by simp
qed


lemma qs_high_bits_range:
  assumes "\<forall>p \<in> set w. canonical Sig_Q p"
  shows "\<forall>p \<in> set (qs_high_bits w). \<forall>c \<in> set p. 0 \<le> c \<and> c < 256 ^ 1"
proof (intro ballI)
  fix p c assume "p \<in> set (qs_high_bits w)" "c \<in> set p"
  then obtain p' x where "p' \<in> set w" "x \<in> set p'" "c = (x + GAMMA2) div (2 * GAMMA2)"
    by (auto simp: qs_high_bits_def decompose_high_def)
  then show "0 \<le> c \<and> c < 256 ^ 1"
    using assms high_range [of x] by (auto simp: canonical_def)
qed



lemma Sig_Q_pos: "0 < Sig_Q"
  by (simp add: Sig_Q_def)












section \<open>Signing (signatures.py and quantum_signatures.py)\<close>

subsection \<open>signatures.py\<close>

definition sig_unpack_private_key ::
  "bytes \<Rightarrow> bytes \<times> bytes \<times> poly list \<times> poly list \<times> poly list" where
  "sig_unpack_private_key sk =
     (let rho = take 32 sk;
          K_seed = slice sk 32 64;
          (s1, offset) = unpack_polys from_bytes_signed 4 Sig_L sk 64;
          (s2, offset) = unpack_polys from_bytes_signed 4 Sig_K sk offset;
          (t, offset) = unpack_polys from_bytes 4 Sig_K sk offset
      in (rho, K_seed, s1, s2, t))"

text \<open>\<open>_sample_mask\<close>: each coefficient is a 3-byte value modulo \<open>2 * GAMMA1\<close>, minus \<open>GAMMA1\<close>.\<close>

definition sig_mask_coeff :: "bytes \<Rightarrow> nat \<Rightarrow> int" where
  "sig_mask_coeff stream j =
     fold (\<lambda>k coeff. if j * 3 + k < length stream
                      then coeff + push_bit (8 * k) (uint (stream ! (j * 3 + k))) else coeff)
       [0..<3] 0"

definition sig_sample_mask :: "xof \<Rightarrow> bytes \<Rightarrow> nat \<Rightarrow> poly list" where
  "sig_sample_mask shake seed l =
     map (\<lambda>i. let stream = digest shake (seed @ [of_nat i]) (N * 3)
              in map (\<lambda>j. sig_mask_coeff stream j mod (2 * GAMMA1) - GAMMA1) [0..<N]) [0..<l]"

definition sig_high_bits :: "poly list \<Rightarrow> poly list" where
  "sig_high_bits v = map (\<lambda>poly. map (\<lambda>coeff. coeff div (2 * GAMMA2)) poly) v"

definition sig_low_bits :: "poly list \<Rightarrow> poly list" where
  "sig_low_bits v = map (\<lambda>poly. map (\<lambda>coeff. coeff mod (2 * GAMMA2)) poly) v"

text \<open>\<open>-c\<close> for a list \<open>c\<close>: unary minus is not defined on a Python list.\<close>

definition list_neg :: "poly \<Rightarrow> exn + poly" where
  "list_neg c = Inl TypeError"

definition make_hint :: "poly \<Rightarrow> poly list \<Rightarrow> poly list \<Rightarrow> exn + int list" where
  "make_hint c w cs2 =
     bind (mapM (\<lambda>i. mapM (\<lambda>j. bind (index (w ! i) j) (\<lambda>wij. bind (index cs2 i) (\<lambda>cs2i.
                   bind (index cs2i j) (\<lambda>cs2ij.
                   let w_high = wij div (2 * GAMMA2);
                       w_cs2_high = (wij - cs2ij) div (2 * GAMMA2)
                   in Inr (if w_high \<noteq> w_cs2_high then 1 else 0))))) [0..<N]) [0..<length w])
       (\<lambda>hint. Inr (concat hint))"

definition pack_hint :: "int list \<Rightarrow> bytes" where
  "pack_hint h =
     fold (\<lambda>i hint_bytes. if h ! i \<noteq> 0
                            then hint_bytes[i div 8 := hint_bytes ! (i div 8) OR push_bit (i mod 8) 1]
                            else hint_bytes)
       [0..<length h] (replicate ((length h + 7) div 8) 0)"

definition sig_pack_signature :: "bytes \<Rightarrow> poly list \<Rightarrow> int list \<Rightarrow> exn + bytes" where
  "sig_pack_signature c_tilde z h =
     bind (pack_polys_signed 4 z) (\<lambda>data. Inr (c_tilde @ data @ pack_hint h))"

text \<open>
  One iteration of the loop of \<open>sign\<close>, given the two bytes of the nonce: \<open>Inr None\<close>
  when the candidate is rejected (\<open>continue\<close>), \<open>Inr (Some signature)\<close> when the
  signature is returned, \<open>Inl\<close> when an exception is raised.
\<close>

definition sig_sign_attempt ::
  "xof \<Rightarrow> xof \<Rightarrow> bytes \<times> bytes \<times> poly list \<times> poly list \<times> poly list \<Rightarrow> bytes \<Rightarrow> bytes
     \<Rightarrow> exn + bytes option" where
  "sig_sign_attempt shake sha3 key mu kappa_bytes =
     (let (rho, K_seed, s1, s2, t) = key;
          rhoprime = digest shake (K_seed @ mu @ kappa_bytes) 64;
          y = sig_sample_mask shake rhoprime Sig_L;
          A = sig_expand_A shake rho
      in bind (matrix_vector_mul Sig_Q A y) (\<lambda>w.
         let w1 = sig_high_bits w
         in bind (pack_w1 2 w1) (\<lambda>packed.
         let c_tilde = sha3_256 sha3 (mu @ packed);
             c = sig_sample_in_ball shake c_tilde TAU
         in bind (scalar_vector_mul Sig_Q c s1) (\<lambda>cs1.
         bind (vector_add Sig_Q y cs1) (\<lambda>z.
         if infinity_norm z \<ge> GAMMA1 - BETA then Inr None
         else
           bind (scalar_vector_mul Sig_Q c s2) (\<lambda>cs2.
           bind (vector_sub Sig_Q w cs2) (\<lambda>w_minus_cs2.
           let r0 = sig_low_bits w_minus_cs2
           in if infinity_norm r0 \<ge> GAMMA2 - BETA then Inr None
              else
                bind (list_neg c) (\<lambda>minus_c.
                bind (scalar_vector_mul Sig_Q c s2) (\<lambda>cs2.
                bind (make_hint minus_c w cs2) (\<lambda>h.
                bind (sig_pack_signature c_tilde z h) (\<lambda>signature.
                Inr (Some signature))))))))))))"

text \<open>
  The loop \<open>while True\<close> of \<open>sign\<close>: \<open>kappa.to_bytes(2, 'little')\<close> raises OverflowError
  from \<open>kappa = 65536\<close> on, and a rejected candidate continues with \<open>kappa + 1\<close>.
\<close>

function sig_sign_loop :: "(bytes \<Rightarrow> exn + bytes option) \<Rightarrow> nat \<Rightarrow> exn + bytes" where
  "sig_sign_loop body kappa =
     (case to_bytes 2 (int kappa) of
        Inl e \<Rightarrow> Inl e
      | Inr kappa_bytes \<Rightarrow>
          (case body kappa_bytes of
             Inl e \<Rightarrow> Inl e
           | Inr None \<Rightarrow> sig_sign_loop body (kappa + 1)
           | Inr (Some signature) \<Rightarrow> Inr signature))"
  by pat_completeness auto
termination
  by (relation "measure (\<lambda>(body, kappa). 65536 - kappa)")
     (auto simp: to_bytes_def split: if_splits)

declare sig_sign_loop.simps [simp del]

definition sig_sign :: "xof \<Rightarrow> xof \<Rightarrow> bytes \<Rightarrow> bytes \<Rightarrow> exn + bytes" where
  "sig_sign shake sha3 message sk =
     (let key = sig_unpack_private_key sk;
          mu = sha3_256 sha3 message
      in sig_sign_loop (sig_sign_attempt shake sha3 key mu) 0)"

subsection \<open>quantum_signatures.py\<close>

definition qs_unpack_private_key ::
  "bytes \<Rightarrow> bytes \<times> bytes \<times> poly list \<times> poly list \<times> poly list" where
  "qs_unpack_private_key sk =
     (let rho = take 32 sk;
          K_bytes = slice sk 32 64;
          (s1, offset) = unpack_polys from_bytes_signed 2 Sig_L sk 64;
          (s2, offset) = unpack_polys from_bytes_signed 2 Sig_K sk offset;
          (t, offset) = unpack_polys from_bytes 3 Sig_K sk offset
      in (rho, K_bytes, s1, s2, t))"

definition qs_pack_public_key :: "bytes \<Rightarrow> poly list \<Rightarrow> exn + bytes" where
  "qs_pack_public_key rho t = bind (pack_polys 3 t) (\<lambda>data. Inr (rho @ data))"

definition qs_sample_gamma1 :: "bytes \<Rightarrow> poly" where
  "qs_sample_gamma1 stream =
     fold (\<lambda>i poly.
        let byte_idx = i * 5 div 8
        in if byte_idx + 4 < length stream
           then poly[i := from_bytes (slice stream byte_idx (byte_idx + 4)) mod (2 * GAMMA1 + 1)
                            - GAMMA1]
           else poly) [0..<N] (replicate N 0)"

definition qs_sample_mask :: "xof \<Rightarrow> bytes \<Rightarrow> poly list" where
  "qs_sample_mask shake seed =
     map (\<lambda>i. qs_sample_gamma1 (digest shake (seed @ [of_nat i]) (5 * N))) [0..<Sig_L]"

definition decompose_low :: "poly \<Rightarrow> poly" where
  "decompose_low poly = map (\<lambda>coeff. coeff mod (2 * GAMMA2) - GAMMA2) poly"

definition qs_low_bits :: "poly list \<Rightarrow> poly list" where
  "qs_low_bits v = map decompose_low v"

text \<open>
  One iteration of the loop of \<open>sign\<close>, at the value \<open>nonce\<close> of the counter:
  \<open>Inr None\<close> for \<open>continue\<close>, \<open>Inr (Some (c, z))\<close> for \<open>break\<close>.
\<close>

definition qs_sign_attempt ::
  "xof \<Rightarrow> bytes \<times> bytes \<times> poly list \<times> poly list \<times> poly list \<Rightarrow> poly list list \<Rightarrow> bytes \<Rightarrow> nat
     \<Rightarrow> exn + (poly \<times> poly list) option" where
  "qs_sign_attempt shake key A mu nonce =
     (let (rho, K_bytes, s1, s2, t) = key
      in bind (to_bytes 2 (int nonce)) (\<lambda>nonce_bytes.
         let y = qs_sample_mask shake (K_bytes @ nonce_bytes)
         in bind (matrix_vector_mul Sig_Q A y) (\<lambda>w.
         let w1 = qs_high_bits w
         in bind (pack_w1 1 w1) (\<lambda>packed.
         let c = qs_sample_challenge shake (mu @ packed)
         in bind (scalar_vector_mul Sig_Q c s1) (\<lambda>cs1.
         bind (vector_add Sig_Q y cs1) (\<lambda>z.
         if check_bounds z (GAMMA1 - BETA) then Inr None
         else
           bind (scalar_vector_mul Sig_Q c s2) (\<lambda>cs2.
           bind (vector_sub Sig_Q w cs2) (\<lambda>w_minus_cs2.
           let r0 = qs_low_bits w_minus_cs2
           in if check_bounds r0 (GAMMA2 - BETA) then Inr None
              else Inr (Some (c, z))))))))))"

text \<open>
  The loop \<open>while True\<close> of \<open>sign\<close>. Neither \<open>continue\<close> changes \<open>nonce\<close>: a rejected
  candidate is followed by the same candidate. \<open>None\<close> is a run that never returns.
\<close>

partial_function (option) qs_sign_loop ::
  "(nat \<Rightarrow> exn + (poly \<times> poly list) option) \<Rightarrow> nat \<Rightarrow> (exn + poly \<times> poly list) option" where
  "qs_sign_loop body nonce =
     (case body nonce of
        Inl e \<Rightarrow> Some (Inl e)
      | Inr None \<Rightarrow> qs_sign_loop body nonce
      | Inr (Some cz) \<Rightarrow> Some (Inr cz))"

definition qs_sign :: "xof \<Rightarrow> bytes \<Rightarrow> bytes \<Rightarrow> (exn + bytes) option" where
  "qs_sign shake message private_key =
     (let key = qs_unpack_private_key private_key;
          (rho, K_bytes, s1, s2, t) = key;
          A = qs_expand_matrix shake rho
      in case qs_pack_public_key rho t of
           Inl e \<Rightarrow> Some (Inl e)
         | Inr pk \<Rightarrow>
             let mu = digest shake (message @ pk) 64
             in (case qs_sign_loop (qs_sign_attempt shake key A mu) 0 of
                   None \<Rightarrow> None
                 | Some (Inl e) \<Rightarrow> Some (Inl e)
                 | Some (Inr (c, z)) \<Rightarrow> Some (qs_pack_signature c z)))"

section \<open>Facts about signing\<close>

subsection \<open>the loop of sign in quantum_signatures.py\<close>

lemma qs_sign_loop_returns:
  assumes "qs_sign_loop body nonce = Some r"
  shows "body nonce \<noteq> Inr None"
proof (rule qs_sign_loop.raw_induct [where P = "\<lambda>body nonce r. body nonce \<noteq> Inr None", OF _ assms])
  fix f and body :: "nat \<Rightarrow> exn + (poly \<times> poly list) option" and nonce y
  assume ih: "\<And>body nonce y. f body nonce = Some y \<Longrightarrow> body nonce \<noteq> Inr None"
    and eq: "(case body nonce of Inl e \<Rightarrow> Some (Inl e) | Inr None \<Rightarrow> f body nonce
              | Inr (Some cz) \<Rightarrow> Some (Inr cz)) = Some y"
  show "body nonce \<noteq> Inr None"
  proof
    assume r: "body nonce = Inr None"
    then have "f body nonce = Some y" using eq by simp
    then show False using ih r by blast
  qed
qed

lemma qs_sign_loop_rejected:
  "body nonce = Inr None \<Longrightarrow> qs_sign_loop body nonce = None"
  using qs_sign_loop_returns [of body nonce] by (cases "qs_sign_loop body nonce") auto

subsection \<open>the loop of sign in signatures.py\<close>

lemma sig_sign_loop_overflow: "65536 \<le> kappa \<Longrightarrow> sig_sign_loop body kappa = Inl OverflowError"
  by (subst sig_sign_loop.simps) (simp add: to_bytes_def)

lemma sig_sign_loop_rejected:
  "kappa < 65536 \<Longrightarrow> body (le_bytes 2 (int kappa)) = Inr None \<Longrightarrow>
   sig_sign_loop body kappa = sig_sign_loop body (kappa + 1)"
  by (subst sig_sign_loop.simps) (simp add: to_bytes_def)

lemma sig_sign_loop_decided:
  "kappa < 65536 \<Longrightarrow>
   sig_sign_loop body kappa =
     (case body (le_bytes 2 (int kappa)) of
        Inl e \<Rightarrow> Inl e
      | Inr None \<Rightarrow> sig_sign_loop body (kappa + 1)
      | Inr (Some signature) \<Rightarrow> Inr signature)"
  by (subst sig_sign_loop.simps) (simp add: to_bytes_def)

lemma sig_sign_loop_skip:
  "kappa + d \<le> 65536 \<Longrightarrow>
   \<forall>k. kappa \<le> k \<and> k < kappa + d \<longrightarrow> body (le_bytes 2 (int k)) = Inr None \<Longrightarrow>
   sig_sign_loop body kappa = sig_sign_loop body (kappa + d)"
proof (induction d arbitrary: kappa)
  case 0
  then show ?case by simp
next
  case (Suc d)
  have "sig_sign_loop body kappa = sig_sign_loop body (kappa + 1)"
    using Suc.prems by (intro sig_sign_loop_rejected) auto
  also have "\<dots> = sig_sign_loop body (kappa + 1 + d)"
    using Suc.prems by (intro Suc.IH) auto
  finally show ?case by simp
qed

subsection \<open>rejected candidates\<close>

lemma vector_add_zero_right:
  assumes "\<forall>p \<in> set y. N \<le> length p"
  shows "vector_add q y (replicate (length y) (replicate N 0))
           = Inr (map (\<lambda>i. map (\<lambda>k. y ! i ! k mod q) [0..<N]) [0..<length y])"
  unfolding vector_add_def
proof (rule mapM_Inr_map)
  fix i assume "i \<in> set [0..<length y]"
  then have "i < length y" "N \<le> length (y ! i)" using assms by auto
  then show "bind (index (replicate (length y) (replicate N 0)) i) (poly_add q (y ! i))
               = Inr (map (\<lambda>k. y ! i ! k mod q) [0..<N])"
    by (simp add: poly_add_def)
qed

lemma check_bounds_nth:
  "i < length z \<Longrightarrow> j < length (z ! i) \<Longrightarrow> bound \<le> \<bar>z ! i ! j\<bar> \<Longrightarrow> check_bounds z bound"
  unfolding check_bounds_def list_ex_iff
  by (meson nth_mem)

lemma norm_fold_mono:
  "m \<le> fold (\<lambda>coeff max_norm. let norm = \<bar>coeff\<bar> in if norm > max_norm then norm else max_norm) p m"
  for m :: int
proof (induction p arbitrary: m)
  case Nil
  then show ?case by simp
next
  case (Cons x p)
  have "m \<le> (let norm = \<bar>x\<bar> in if norm > m then norm else m)"
    by (simp add: Let_def)
  also have "\<dots> \<le> fold (\<lambda>coeff max_norm. let norm = \<bar>coeff\<bar> in if norm > max_norm then norm else max_norm) p
                    (let norm = \<bar>x\<bar> in if norm > m then norm else m)"
    by (rule Cons.IH)
  finally show ?case by simp
qed

lemma norm_fold_ge:
  "x \<in> set p \<Longrightarrow>
   \<bar>x\<bar> \<le> fold (\<lambda>coeff max_norm. let norm = \<bar>coeff\<bar> in if norm > max_norm then norm else max_norm) p m"
  for m :: int
proof (induction p arbitrary: m)
  case Nil
  then show ?case by simp
next
  case (Cons a p)
  show ?case
  proof (cases "x = a")
    case True
    have "\<bar>x\<bar> \<le> (let norm = \<bar>a\<bar> in if norm > m then norm else m)"
      using True by (simp add: Let_def)
    also have "\<dots> \<le> fold (\<lambda>coeff max_norm. let norm = \<bar>coeff\<bar> in if norm > max_norm then norm else max_norm) p
                    (let norm = \<bar>a\<bar> in if norm > m then norm else m)"
      by (rule norm_fold_mono)
    finally show ?thesis by simp
  next
    case False
    then have "x \<in> set p" using Cons.prems by simp
    then show ?thesis using Cons.IH by simp
  qed
qed

lemma infinity_norm_fold_mono:
  "m \<le> fold (\<lambda>poly max_norm.
        fold (\<lambda>coeff max_norm. let norm = \<bar>coeff\<bar> in if norm > max_norm then norm else max_norm)
          poly max_norm) v m"
  for m :: int
proof (induction v arbitrary: m)
  case Nil
  then show ?case by simp
next
  case (Cons p v)
  show ?case
    using norm_fold_mono [of m p] Cons.IH
      [of "fold (\<lambda>coeff max_norm. let norm = \<bar>coeff\<bar> in if norm > max_norm then norm else max_norm) p m"]
    by simp
qed

lemma infinity_norm_fold_ge:
  "p \<in> set v \<Longrightarrow> x \<in> set p \<Longrightarrow>
   \<bar>x\<bar> \<le> fold (\<lambda>poly max_norm.
        fold (\<lambda>coeff max_norm. let norm = \<bar>coeff\<bar> in if norm > max_norm then norm else max_norm)
          poly max_norm) v m"
  for m :: int
proof (induction v arbitrary: m)
  case Nil
  then show ?case by simp
next
  case (Cons a v)
  show ?case
  proof (cases "p = a")
    case True
    have "\<bar>x\<bar> \<le> fold (\<lambda>coeff max_norm. let norm = \<bar>coeff\<bar> in if norm > max_norm then norm else max_norm) a m"
      using True Cons.prems(2) by (intro norm_fold_ge) simp
    also have "\<dots> \<le> fold (\<lambda>poly max_norm.
        fold (\<lambda>coeff max_norm. let norm = \<bar>coeff\<bar> in if norm > max_norm then norm else max_norm)
          poly max_norm) v
        (fold (\<lambda>coeff max_norm. let norm = \<bar>coeff\<bar> in if norm > max_norm then norm else max_norm) a m)"
      by (rule infinity_norm_fold_mono)
    finally show ?thesis by simp
  next
    case False
    then have "p \<in> set v" using Cons.prems by simp
    then show ?thesis using Cons.IH Cons.prems(2) by simp
  qed
qed

lemma infinity_norm_nth:
  "i < length v \<Longrightarrow> j < length (v ! i) \<Longrightarrow> \<bar>v ! i ! j\<bar> \<le> infinity_norm v"
  unfolding infinity_norm_def by (intro infinity_norm_fold_ge [of "v ! i"]) simp_all

subsection \<open>masks\<close>

lemma fold_update_nth:
  "n \<le> length p \<Longrightarrow> k < length p \<Longrightarrow>
   fold (\<lambda>i p. if c i then p[i := f i] else p) [0..<n] p ! k
     = (if k < n \<and> c k then f k else p ! k)"
proof (induction n)
  case 0
  then show ?case by simp
next
  case (Suc n)
  have len: "length (fold (\<lambda>i p. if c i then p[i := f i] else p) [0..<n] p) = length p"
    by (rule fold_invariant [where P = "\<lambda>q. length q = length p"]) simp_all
  show ?case
    using Suc len by (auto simp: nth_list_update less_Suc_eq)
qed

lemma length_qs_sample_gamma1 [simp]: "length (qs_sample_gamma1 stream) = N"
  unfolding qs_sample_gamma1_def
  by (rule fold_invariant [where P = "\<lambda>p. length p = N"]) (simp_all add: Let_def)

lemma qs_sample_gamma1_nth:
  "i < N \<Longrightarrow> i * 5 div 8 + 4 < length stream \<Longrightarrow>
   qs_sample_gamma1 stream ! i
     = from_bytes (slice stream (i * 5 div 8) (i * 5 div 8 + 4)) mod (2 * GAMMA1 + 1) - GAMMA1"
  unfolding qs_sample_gamma1_def Let_def
  using fold_update_nth [of N "replicate N 0" i "\<lambda>i. i * 5 div 8 + 4 < length stream"
      "\<lambda>i. from_bytes (slice stream (i * 5 div 8) (i * 5 div 8 + 4)) mod (2 * GAMMA1 + 1) - GAMMA1"]
  by simp

lemma qs_sample_mask_shape:
  "length (qs_sample_mask shake seed) = Sig_L \<and> (\<forall>p \<in> set (qs_sample_mask shake seed). N \<le> length p)"
  by (auto simp: qs_sample_mask_def)

lemma sig_sample_mask_shape:
  "length (sig_sample_mask shake seed l) = l \<and> (\<forall>p \<in> set (sig_sample_mask shake seed l). N \<le> length p)"
  by (auto simp: sig_sample_mask_def Let_def)

lemma sig_high_bits_range:
  assumes "\<forall>p \<in> set w. canonical Sig_Q p"
  shows "\<forall>p \<in> set (sig_high_bits w). \<forall>c \<in> set p. 0 \<le> c \<and> c < 256 ^ 2"
proof (intro ballI)
  fix p c assume "p \<in> set (sig_high_bits w)" "c \<in> set p"
  then obtain p' x where "p' \<in> set w" "x \<in> set p'" "c = x div (2 * GAMMA2)"
    by (auto simp: sig_high_bits_def)
  then show "0 \<le> c \<and> c < 256 ^ 2"
    using assms high_range [of x] by (auto simp: canonical_def)
qed

subsection \<open>a candidate with a zero secret \<open>s1\<close> and a mask coefficient out of bound\<close>

lemma qs_sign_attempt_rejected:
  assumes "nonce < 65536" "i < Sig_L" "j < N"
    and out: "GAMMA1 - BETA \<le> \<bar>qs_sample_mask shake (K_bytes @ le_bytes 2 (int nonce)) ! i ! j mod Sig_Q\<bar>"
  shows "qs_sign_attempt shake (rho, K_bytes, replicate Sig_L (replicate N 0), s2, t)
           (qs_expand_matrix shake rho') mu nonce = Inr None"
proof -
  let ?y = "qs_sample_mask shake (K_bytes @ le_bytes 2 (int nonce))"
  have nb: "to_bytes 2 (int nonce) = Inr (le_bytes 2 (int nonce))"
    using assms(1) by (simp add: to_bytes_def)
  have y: "length ?y = Sig_L" "\<forall>p \<in> set ?y. N \<le> length p"
    using qs_sample_mask_shape by blast+
  obtain w where w: "matrix_vector_mul Sig_Q (qs_expand_matrix shake rho') ?y = Inr w"
    "\<forall>p \<in> set w. canonical Sig_Q p"
    using matrix_vector_mul_canonical [of "qs_expand_matrix shake rho'" ?y Sig_Q]
      qs_expand_matrix_shape [of shake rho'] y Sig_Q_pos by auto
  have pw: "pack_w1 1 (qs_high_bits w)
              = Inr (concat (map (\<lambda>p. concat (map (le_bytes 1) p)) (qs_high_bits w)))"
    unfolding pack_w1_def using qs_high_bits_range [OF w(2)] by (rule pack_polys_Inr)
  let ?c = "qs_sample_challenge shake
              (mu @ concat (map (\<lambda>p. concat (map (le_bytes 1) p)) (qs_high_bits w)))"
  have c: "N \<le> length ?c"
    using qs_sample_challenge_shape by simp
  have cs1: "scalar_vector_mul Sig_Q ?c (replicate Sig_L (replicate N 0)) = Inr (replicate Sig_L (replicate N 0))"
    using c by (rule scalar_vector_mul_zero)
  let ?z = "map (\<lambda>i. map (\<lambda>k. ?y ! i ! k mod Sig_Q) [0..<N]) [0..<length ?y]"
  have z: "vector_add Sig_Q ?y (replicate Sig_L (replicate N 0)) = Inr ?z"
    using vector_add_zero_right [OF y(2), of Sig_Q] y(1) by simp
  have "check_bounds ?z (GAMMA1 - BETA)"
    using assms(2,3) y(1) out by (intro check_bounds_nth [of i _ j]) simp_all
  then show ?thesis
    unfolding qs_sign_attempt_def
    by (simp add: nb w pw cs1 z Let_def del: One_nat_def)
qed

lemma sig_sign_attempt_rejected:
  assumes "i < Sig_L" "j < N"
    and out: "GAMMA1 - BETA \<le>
       \<bar>sig_sample_mask shake (digest shake (K_seed @ mu @ kappa_bytes) 64) Sig_L ! i ! j mod Sig_Q\<bar>"
  shows "sig_sign_attempt shake sha3 (rho, K_seed, replicate Sig_L (replicate N 0), s2, t) mu kappa_bytes
           = Inr None"
proof -
  let ?y = "sig_sample_mask shake (digest shake (K_seed @ mu @ kappa_bytes) 64) Sig_L"
  have y: "length ?y = Sig_L" "\<forall>p \<in> set ?y. N \<le> length p"
    using sig_sample_mask_shape by blast+
  obtain w where w: "matrix_vector_mul Sig_Q (sig_expand_A shake rho) ?y = Inr w"
    "\<forall>p \<in> set w. canonical Sig_Q p"
    using matrix_vector_mul_canonical [of "sig_expand_A shake rho" ?y Sig_Q]
      sig_expand_A_shape [of shake rho] y Sig_Q_pos by auto
  have pw: "pack_w1 2 (sig_high_bits w)
              = Inr (concat (map (\<lambda>p. concat (map (le_bytes 2) p)) (sig_high_bits w)))"
    unfolding pack_w1_def using sig_high_bits_range [OF w(2)] by (rule pack_polys_Inr)
  let ?c = "sig_sample_in_ball shake
              (sha3_256 sha3 (mu @ concat (map (\<lambda>p. concat (map (le_bytes 2) p)) (sig_high_bits w)))) TAU"
  have c: "N \<le> length ?c"
    using sig_sample_in_ball_weight [of TAU shake] by (simp add: TAU_def N_def)
  have cs1: "scalar_vector_mul Sig_Q ?c (replicate Sig_L (replicate N 0)) = Inr (replicate Sig_L (replicate N 0))"
    using c by (rule scalar_vector_mul_zero)
  let ?z = "map (\<lambda>i. map (\<lambda>k. ?y ! i ! k mod Sig_Q) [0..<N]) [0..<length ?y]"
  have z: "vector_add Sig_Q ?y (replicate Sig_L (replicate N 0)) = Inr ?z"
    using vector_add_zero_right [OF y(2), of Sig_Q] y(1) by simp
  have "\<bar>?z ! i ! j\<bar> \<le> infinity_norm ?z"
    using assms(1,2) y(1) by (intro infinity_norm_nth) simp_all
  then have "GAMMA1 - BETA \<le> infinity_norm ?z"
    using assms(1,2) y(1) out by simp
  then show ?thesis
    unfolding sig_sign_attempt_def
    by (simp add: w pw cs1 z Let_def)
qed

subsection \<open>the empty private key\<close>

lemma slice_Nil [simp]: "slice [] i j = []"
  by (simp add: slice_def)

lemma qs_unpack_private_key_empty:
  "qs_unpack_private_key [] =
     ([], [], replicate Sig_L (replicate N 0), replicate Sig_K (replicate N 0),
      replicate Sig_K (replicate N 0))"
  by (simp add: qs_unpack_private_key_def case_prod_beta Let_def unpack_polys_all_missing)

lemma sig_unpack_private_key_empty:
  "sig_unpack_private_key [] =
     ([], [], replicate Sig_L (replicate N 0), replicate Sig_K (replicate N 0),
      replicate Sig_K (replicate N 0))"
  by (simp add: sig_unpack_private_key_def case_prod_beta Let_def unpack_polys_all_missing)

lemma qs_pack_public_key_zeros:
  "\<exists>pk. qs_pack_public_key rho (replicate k (replicate N 0)) = Inr pk"
proof -
  have "pack_polys 3 (replicate k (replicate N 0))
          = Inr (concat (map (\<lambda>p. concat (map (le_bytes 3) p)) (replicate k (replicate N 0))))"
    by (rule pack_polys_Inr) simp
  then show ?thesis by (simp add: qs_pack_public_key_def)
qed

subsection \<open>sign of quantum_signatures.py on the empty message and key\<close>

text \<open>The first five bytes of SHAKE-256 of \<open>b'\x00\x00\x00'\<close>, the seed of the first mask
  polynomial for the empty private key and the nonce 0.\<close>

definition shake_mask_table :: xof where
  "shake_mask_table d i =
     (if d = [0, 0, 0] \<and> i < 5 then [0xd6, 0x4a, 0xaa, 0xd9, 0xd9] ! i else 0)"

lemma slice_digest:
  "j \<le> n \<Longrightarrow> slice (digest h d n) i j = map (h d) [i..<j]"
proof (cases "i \<le> j")
  case True
  assume "j \<le> n"
  then have "take (j - i) [0 + i..<n] = [0 + i..<0 + i + (j - i)]"
    using True by (intro take_upt) simp
  then show ?thesis
    using True by (simp add: slice_def digest_def take_map drop_map)
next
  case False
  then show ?thesis by (simp add: slice_def)
qed

lemma shake_mask_table_slice:
  "slice (digest shake_mask_table [0, 0, 0] (5 * N)) 1 5 = [0x4a, 0xaa, 0xd9, 0xd9]"
proof -
  have "[1..<5] = [1, 2, 3, 4 :: nat]" by code_simp
  then show ?thesis
    by (simp add: slice_digest N_def shake_mask_table_def)
qed

lemma qs_first_mask_out_of_bound:
  "GAMMA1 - BETA \<le> \<bar>qs_sample_mask shake_mask_table ([] @ le_bytes 2 (int 0)) ! 0 ! 2 mod Sig_Q\<bar>"
proof -
  have seed: "([] @ le_bytes 2 (int 0)) @ [of_nat 0] = ([0, 0, 0] :: bytes)"
    by (simp add: numeral_2_eq_2)
  have "qs_sample_mask shake_mask_table ([] @ le_bytes 2 (int 0)) ! 0
          = qs_sample_gamma1 (digest shake_mask_table [0, 0, 0] (5 * N))"
    unfolding qs_sample_mask_def using seed by (simp add: Sig_L_def upt_rec [of 0 4])
  moreover have "qs_sample_gamma1 (digest shake_mask_table [0, 0, 0] (5 * N)) ! 2
          = from_bytes [0x4a, 0xaa, 0xd9, 0xd9] mod (2 * GAMMA1 + 1) - GAMMA1"
    using qs_sample_gamma1_nth [of 2 "digest shake_mask_table [0, 0, 0] (5 * N)"]
      shake_mask_table_slice
    by (simp add: N_def)
  ultimately show ?thesis
    by (simp add: GAMMA1_def BETA_def Sig_Q_def)
qed

text \<open>
  Claim C6 (the signing rejection loop is bounded: \<open>sign\<close> returns a signature within a
  fixed iteration cap or fails with SamplingExhausted, never loops forever, and each
  rejected iteration increments the nonce) does not hold of \<open>sign\<close> in
  \<open>quantum_signatures.py\<close>: on the empty message and the empty private key it never
  returns. The secret \<open>s1\<close> unpacks to zero, so \<open>z\<close> is the mask reduced modulo \<open>Q\<close>;
  coefficient 2 of the first mask polynomial is -35884, which is 8344533 modulo \<open>Q\<close>, out
  of bound; the candidate is rejected and, both \<open>continue\<close> statements leaving the nonce
  unchanged, the same candidate follows, forever. There is no iteration cap and no failure
  of its own kind.
\<close>

theorem qs_sign_never_returns: "qs_sign shake_mask_table [] [] = None"
proof -
  let ?ZK = "replicate Sig_K (replicate N (0::int))"
  obtain pk where pk: "qs_pack_public_key [] ?ZK = Inr pk"
    using qs_pack_public_key_zeros by blast
  let ?mu = "digest shake_mask_table ([] @ pk) 64"
  have "qs_sign_attempt shake_mask_table ([], [], replicate Sig_L (replicate N 0), ?ZK, ?ZK)
          (qs_expand_matrix shake_mask_table []) ?mu 0 = Inr None"
    using qs_first_mask_out_of_bound
    by (intro qs_sign_attempt_rejected [where i = 0 and j = 2]) (simp_all add: Sig_L_def N_def)
  then have "qs_sign_loop (qs_sign_attempt shake_mask_table ([], [], replicate Sig_L (replicate N 0), ?ZK, ?ZK)
          (qs_expand_matrix shake_mask_table []) ?mu) 0 = None"
    by (rule qs_sign_loop_rejected)
  then show ?thesis
    by (simp add: qs_sign_def qs_unpack_private_key_empty pk Let_def)
qed

subsection \<open>sign of signatures.py\<close>

lemma sig_sign_first_decides:
  assumes "n \<le> 65536" "\<forall>k<n. body (le_bytes 2 (int k)) = Inr None"
  shows "sig_sign_loop body 0 = sig_sign_loop body n"
  using sig_sign_loop_skip [of 0 n body] assms by simp

text \<open>
  The loop of \<open>sign\<close> in \<open>signatures.py\<close>, for comparison, does increment its nonce
  \<open>kappa\<close> on each rejected iteration, so the candidates are tried in the order
  \<open>kappa = 0, 1, 2, ...\<close> and the first one that is not rejected decides the outcome. It
  has no iteration cap of its own either; when all 65536 candidates of the two-byte nonce
  are rejected, \<open>sign\<close> fails with the OverflowError of \<open>kappa.to_bytes(2, 'little')\<close>.
\<close>

lemma sig_sign_bounded:
  "let body = sig_sign_attempt shake sha3 (sig_unpack_private_key sk) (sha3_256 sha3 message)
   in ((\<forall>k<65536. body (le_bytes 2 (int k)) = Inr None)
         \<longrightarrow> sig_sign shake sha3 message sk = Inl OverflowError) \<and>
      (\<forall>n<65536. (\<forall>k<n. body (le_bytes 2 (int k)) = Inr None) \<longrightarrow>
         (body (le_bytes 2 (int n)) = Inr None
            \<longrightarrow> sig_sign shake sha3 message sk = sig_sign_loop body (n + 1)) \<and>
         (\<forall>e. body (le_bytes 2 (int n)) = Inl e \<longrightarrow> sig_sign shake sha3 message sk = Inl e) \<and>
         (\<forall>s. body (le_bytes 2 (int n)) = Inr (Some s) \<longrightarrow> sig_sign shake sha3 message sk = Inr s))"
proof -
  define body where "body = sig_sign_attempt shake sha3 (sig_unpack_private_key sk) (sha3_256 sha3 message)"
  have sign: "sig_sign shake sha3 message sk = sig_sign_loop body 0"
    by (simp add: sig_sign_def body_def Let_def)
  have all: "sig_sign_loop body 0 = Inl OverflowError"
    if "\<forall>k<65536. body (le_bytes 2 (int k)) = Inr None"
    using sig_sign_first_decides [of 65536 body] that by (simp add: sig_sign_loop_overflow)
  have first: "sig_sign_loop body 0 =
      (case body (le_bytes 2 (int n)) of Inl e \<Rightarrow> Inl e
       | Inr None \<Rightarrow> sig_sign_loop body (n + 1) | Inr (Some signature) \<Rightarrow> Inr signature)"
    if "n < 65536" "\<forall>k<n. body (le_bytes 2 (int k)) = Inr None" for n
    using sig_sign_first_decides [of n body] that sig_sign_loop_decided [of n body] by simp
  show ?thesis
    unfolding Let_def body_def [symmetric] sign
    using all first by (auto split: sum.splits option.splits)
qed

lemma sig_mask_coeff_zero:
  assumes "\<forall>x \<in> set stream. x = 0"
  shows "sig_mask_coeff stream j = 0"
proof -
  have "stream ! i = 0" if "i < length stream" for i
    using assms that nth_mem by blast
  then show ?thesis
    unfolding sig_mask_coeff_def
    by (intro fold_invariant [where P = "\<lambda>c. c = 0"]) auto
qed

lemma sig_zero_mask_out_of_bound:
  "GAMMA1 - BETA \<le> \<bar>sig_sample_mask (\<lambda>_ _. 0) seed Sig_L ! 0 ! 0 mod Sig_Q\<bar>"
proof -
  have "sig_sample_mask (\<lambda>_ _. 0) seed Sig_L ! 0 ! 0 = - GAMMA1"
    by (simp add: sig_sample_mask_def Sig_L_def Let_def digest_zero sig_mask_coeff_zero N_def
        upt_rec [of 0 4] upt_rec [of 0 256])
  then show ?thesis
    by (simp add: GAMMA1_def BETA_def Sig_Q_def)
qed

lemma sig_sign_zero_all_rejected:
  "sig_sign_attempt (\<lambda>_ _. 0) sha3 (sig_unpack_private_key []) mu kappa_bytes = Inr None"
  unfolding sig_unpack_private_key_empty
  using sig_zero_mask_out_of_bound
  by (intro sig_sign_attempt_rejected [where i = 0 and j = 0]) (simp_all add: Sig_L_def N_def)

text \<open>With a zero SHAKE-256 stream and the empty private key every mask coefficient is
  \<open>-GAMMA1\<close>, every candidate is rejected, and \<open>sign\<close> ends with OverflowError.\<close>

lemma sig_sign_zero_overflow:
  "sig_sign (\<lambda>_ _. 0) (\<lambda>_ _. 0) [] [] = Inl OverflowError"
  using sig_sign_bounded [of "\<lambda>_ _. 0" "\<lambda>_ _. 0" "[]" "[]"]
  by (simp add: Let_def sig_sign_zero_all_rejected)

text \<open>\<open>sign\<close> of \<open>signatures.py\<close> never returns a signature: a candidate that passes both
  checks reaches \<open>-c\<close>, which raises TypeError.\<close>

lemma sig_sign_attempt_no_signature:
  "sig_sign_attempt shake sha3 key mu kappa_bytes \<noteq> Inr (Some signature)"
  by (auto simp: sig_sign_attempt_def Let_def bind_def list_neg_def
      split: prod.splits sum.splits if_splits)

lemma sig_sign_loop_no_signature:
  "(\<And>kb s. body kb \<noteq> Inr (Some s)) \<Longrightarrow> sig_sign_loop body kappa \<noteq> Inr signature"
proof (induction body kappa rule: sig_sign_loop.induct)
  case (1 body kappa)
  show ?case
  proof (cases "kappa < 65536")
    case False
    then show ?thesis by (simp add: sig_sign_loop_overflow)
  next
    case True
    then have kb: "to_bytes 2 (int kappa) = Inr (le_bytes 2 (int kappa))"
      by (simp add: to_bytes_def)
    show ?thesis
    proof (cases "body (le_bytes 2 (int kappa))")
      case (Inl e)
      then show ?thesis using True by (simp add: sig_sign_loop_decided)
    next
      case (Inr r)
      show ?thesis
      proof (cases r)
        case None
        then show ?thesis
          using "1.IH" [OF kb] Inr "1.prems" True by (simp add: sig_sign_loop_decided)
      next
        case (Some s)
        then show ?thesis using Inr "1.prems" by blast
      qed
    qed
  qed
qed

lemma sig_sign_no_signature: "sig_sign shake sha3 message sk \<noteq> Inr signature"
  unfolding sig_sign_def Let_def
  by (rule sig_sign_loop_no_signature) (rule sig_sign_attempt_no_signature)

section \<open>Facts about the uniform sampler of kyber.py and quantum_signatures.py\<close>

lemma uniform_step_cases:
  "uniform_step q stream i (poly, j) =
     (let d1 = uint (stream ! i) + 256 * (uint (stream ! (i + 1)) mod 16);
          d2 = uint (stream ! (i + 1)) div 16 + 16 * uint (stream ! (i + 2))
      in if j \<ge> N then (poly, j)
         else if d1 < q then (if d2 < q \<and> j + 1 < N then (poly[j := d1, j + 1 := d2], j + 2)
                              else (poly[j := d1], j + 1))
         else (if d2 < q \<and> j < N then (poly[j := d2], j + 1) else (poly, j)))"
  unfolding uniform_step_def Let_def prod.case
  by (simp only: split: if_split) auto


lemma uniform_step_range:
  assumes "\<forall>c \<in> set (fst st). 0 \<le> c \<and> c < q"
  shows "\<forall>c \<in> set (fst (uniform_step q stream i st)). 0 \<le> c \<and> c < q"
proof -
  obtain poly j where st: "st = (poly, j)" by (cases st)
  define d1 where "d1 = uint (stream ! i) + 256 * (uint (stream ! (i + 1)) mod 16)"
  define d2 where "d2 = uint (stream ! (i + 1)) div 16 + 16 * uint (stream ! (i + 2))"
  have upd: "\<forall>c \<in> set (p[k := d]). 0 \<le> c \<and> c < q"
    if "\<forall>c \<in> set p. 0 \<le> c \<and> c < q" "0 \<le> d" "d < q" for p :: poly and k d
    using that set_update_subset_insert [of p k d] by (auto simp: subset_iff)
  have d: "0 \<le> d1" "0 \<le> d2"
    by (simp_all add: d1_def d2_def pos_imp_zdiv_nonneg_iff)
  have p: "\<forall>c \<in> set poly. 0 \<le> c \<and> c < q" using assms st by simp
  have 1: "\<forall>c \<in> set (poly[j := d1]). 0 \<le> c \<and> c < q" if "d1 < q"
    using upd [OF p d(1) that] .
  have 2: "\<forall>c \<in> set (poly[j := d2]). 0 \<le> c \<and> c < q" if "d2 < q"
    using upd [OF p d(2) that] .
  have 3: "\<forall>c \<in> set (poly[j := d1, j + 1 := d2]). 0 \<le> c \<and> c < q" if "d1 < q" "d2 < q"
    using upd [OF 1 [OF that(1)] d(2) that(2)] .
  have "uniform_step q stream i (poly, j) =
      (if j \<ge> N then (poly, j)
       else if d1 < q then (if d2 < q \<and> j + 1 < N then (poly[j := d1, j + 1 := d2], j + 2)
                            else (poly[j := d1], j + 1))
       else (if d2 < q \<and> j < N then (poly[j := d2], j + 1) else (poly, j)))"
    unfolding uniform_step_cases Let_def d1_def d2_def ..
  then have "fst (uniform_step q stream i (poly, j)) = poly \<or>
             (d1 < q \<and> d2 < q \<and> fst (uniform_step q stream i (poly, j)) = poly[j := d1, j + 1 := d2]) \<or>
             (d1 < q \<and> fst (uniform_step q stream i (poly, j)) = poly[j := d1]) \<or>
             (d2 < q \<and> fst (uniform_step q stream i (poly, j)) = poly[j := d2])"
    by (simp only: split: if_split) simp
  then show ?thesis
    unfolding st using p 1 2 3 by metis
qed

text \<open>Every coefficient that \<open>_sample_uniform_poly\<close> returns is in \<open>[0, Q)\<close>: an accepted
  candidate, or the 0 the list was created with.\<close>

lemma sample_uniform_poly_range:
  "0 < q \<Longrightarrow> \<forall>c \<in> set (sample_uniform_poly q shake seed). 0 \<le> c \<and> c < q"
proof -
  assume q: "0 < q"
  have "\<forall>c \<in> set (fst (fold (uniform_step q (digest shake seed (3 * N))) (map (\<lambda>c. 3 * c) [0..<N])
          (replicate N 0, 0))). 0 \<le> c \<and> c < q"
  proof (rule fold_invariant [where P = "\<lambda>st. \<forall>c \<in> set (fst st). 0 \<le> c \<and> c < q"])
    show "\<forall>c \<in> set (fst (replicate N 0, 0::nat)). 0 \<le> c \<and> c < q"
      using q by simp
  next
    fix x and st :: "poly \<times> nat" assume "\<forall>c \<in> set (fst st). 0 \<le> c \<and> c < q"
    then show "\<forall>c \<in> set (fst (uniform_step q (digest shake seed (3 * N)) x st)). 0 \<le> c \<and> c < q"
      by (rule uniform_step_range)
  qed
  then show ?thesis
    unfolding sample_uniform_poly_def Let_def .
qed


text \<open>When the stream has fewer than \<open>N\<close> candidates below \<open>Q\<close>, no fault is raised: the
  coefficients not reached keep the value 0. Here every candidate is 4095.\<close>

lemma sample_uniform_poly_shortfall:
  "sample_uniform_poly Kyber_Q (\<lambda>_ _. 255) seed = replicate N 0"
proof -
  let ?stream = "digest (\<lambda>_ _. 255) seed (3 * N)"
  have nth: "?stream ! k = 255" if "k < 3 * N" for k
    using that by (simp add: digest_nth)
  have step: "uniform_step Kyber_Q ?stream (3 * c) (replicate N 0, 0) = (replicate N 0, 0)"
    if "c < N" for c
  proof -
    have k: "3 * c < 3 * N" "3 * c + 1 < 3 * N" "3 * c + 2 < 3 * N"
      using that by simp_all
    show ?thesis
      unfolding uniform_step_cases Let_def nth [OF k(1)] nth [OF k(2)] nth [OF k(3)]
      by (simp add: Kyber_Q_def N_def)
  qed
  have "fold (uniform_step Kyber_Q ?stream) (map (\<lambda>c. 3 * c) [0..<N]) (replicate N 0, 0)
          = (replicate N 0, 0)"
  proof (rule fold_invariant [where P = "\<lambda>st. st = (replicate N 0, 0)"])
    fix x and st :: "poly \<times> nat"
    assume "x \<in> set (map (\<lambda>c. 3 * c) [0..<N])" "st = (replicate N 0, 0)"
    then show "uniform_step Kyber_Q ?stream x st = (replicate N 0, 0)"
      using step by auto
  qed simp
  then show ?thesis
    by (simp add: sample_uniform_poly_def Let_def)
qed

end
